theory Spec2Isabelle
  imports Complex_Main "HOL-Library.Word"
begin

section \<open>The light-sensor library: LightDependentResistor.c\<close>

text \<open>
  A shallow embedding of \<^verbatim>\<open>LightDependentResistor.c\<close>. The module keeps its state
  in file-scope variables; here they are the fields of one record that every function
  takes and returns.
\<close>

subsection \<open>Values of the C types float and double\<close>

text \<open>
  A value of type \<^verbatim>\<open>float\<close> (IEEE 754 binary32) or \<^verbatim>\<open>double\<close> (binary64) is a finite
  number, an infinity or a NaN. Every arithmetic operation computes the exact real result and
  rounds it to the format: to the nearest representable number, a tie going to the even
  significand, and to an infinity when the rounded magnitude exceeds the largest finite
  number. \<open>round_float prec emin emax\<close> is that rounding for a format with \<open>prec\<close>
  significant bits and exponents \<open>emin\<close> to \<open>emax\<close> (subnormal numbers below
  \<open>2 powi emin\<close> included). Operations are evaluated in the type of their operands, each
  rounded once (\<^verbatim>\<open>FLT_EVAL_METHOD\<close> 0, as on the ARM target).

  Zero carries no sign: every zero divisor this module can produce (an unsigned integer
  converted to float, or \<^verbatim>\<open>pow\<close> of a non-negative base) is +0, and division by zero yields
  the infinity with the sign of the dividend.
\<close>

datatype cfloat = Finite real | PInf | NInf | NaN

definition round_half_even :: "real \<Rightarrow> int" where
  "round_half_even y =
     (if y - of_int \<lfloor>y\<rfloor> < 1 / 2 then \<lfloor>y\<rfloor>
      else if 1 / 2 < y - of_int \<lfloor>y\<rfloor> then \<lfloor>y\<rfloor> + 1
      else if even \<lfloor>y\<rfloor> then \<lfloor>y\<rfloor> else \<lfloor>y\<rfloor> + 1)"

definition float_exponent :: "int \<Rightarrow> real \<Rightarrow> int" where
  "float_exponent emin x = max emin \<lfloor>log 2 \<bar>x\<bar>\<rfloor>"

definition float_ulp :: "int \<Rightarrow> int \<Rightarrow> real \<Rightarrow> real" where
  "float_ulp prec emin x = 2 powi (float_exponent emin x - prec + 1)"

definition round_unbounded :: "int \<Rightarrow> int \<Rightarrow> real \<Rightarrow> real" where
  "round_unbounded prec emin x =
     (if x = 0 then 0
      else of_int (round_half_even (x / float_ulp prec emin x)) * float_ulp prec emin x)"

definition round_float :: "int \<Rightarrow> int \<Rightarrow> int \<Rightarrow> real \<Rightarrow> cfloat" where
  "round_float prec emin emax x =
     (let y = round_unbounded prec emin x
      in if 2 powi (emax + 1) \<le> \<bar>y\<bar> then (if 0 < x then PInf else NInf) else Finite y)"

definition round_binary32 :: "real \<Rightarrow> cfloat" where
  "round_binary32 x = round_float 24 (- 126) 127 x"

definition round_binary64 :: "real \<Rightarrow> cfloat" where
  "round_binary64 x = round_float 53 (- 1022) 1023 x"

definition signed_inf :: "real \<Rightarrow> cfloat" where
  "signed_inf s = (if 0 < s then PInf else if s < 0 then NInf else NaN)"

fun fneg :: "cfloat \<Rightarrow> cfloat" where
  "fneg (Finite a) = Finite (- a)"
| "fneg PInf = NInf"
| "fneg NInf = PInf"
| "fneg NaN = NaN"

text \<open>
  Addition, multiplication and division with the rounding \<open>rnd\<close> of the format; the
  operations of \<^verbatim>\<open>float\<close> round to binary32, those of \<^verbatim>\<open>double\<close> to binary64.
\<close>

fun add_rounded :: "(real \<Rightarrow> cfloat) \<Rightarrow> cfloat \<Rightarrow> cfloat \<Rightarrow> cfloat" where
  "add_rounded rnd (Finite a) (Finite b) = rnd (a + b)"
| "add_rounded rnd (Finite a) PInf = PInf"
| "add_rounded rnd (Finite a) NInf = NInf"
| "add_rounded rnd PInf (Finite b) = PInf"
| "add_rounded rnd PInf PInf = PInf"
| "add_rounded rnd PInf NInf = NaN"
| "add_rounded rnd NInf (Finite b) = NInf"
| "add_rounded rnd NInf NInf = NInf"
| "add_rounded rnd NInf PInf = NaN"
| "add_rounded rnd NaN y = NaN"
| "add_rounded rnd x NaN = NaN"

fun mul_rounded :: "(real \<Rightarrow> cfloat) \<Rightarrow> cfloat \<Rightarrow> cfloat \<Rightarrow> cfloat" where
  "mul_rounded rnd (Finite a) (Finite b) = rnd (a * b)"
| "mul_rounded rnd (Finite a) PInf = signed_inf a"
| "mul_rounded rnd (Finite a) NInf = signed_inf (- a)"
| "mul_rounded rnd PInf (Finite b) = signed_inf b"
| "mul_rounded rnd NInf (Finite b) = signed_inf (- b)"
| "mul_rounded rnd PInf PInf = PInf"
| "mul_rounded rnd PInf NInf = NInf"
| "mul_rounded rnd NInf PInf = NInf"
| "mul_rounded rnd NInf NInf = PInf"
| "mul_rounded rnd NaN y = NaN"
| "mul_rounded rnd x NaN = NaN"

fun div_rounded :: "(real \<Rightarrow> cfloat) \<Rightarrow> cfloat \<Rightarrow> cfloat \<Rightarrow> cfloat" where
  "div_rounded rnd (Finite a) (Finite b) = (if b = 0 then signed_inf a else rnd (a / b))"
| "div_rounded rnd (Finite a) PInf = Finite 0"
| "div_rounded rnd (Finite a) NInf = Finite 0"
| "div_rounded rnd PInf (Finite b) = (if 0 \<le> b then PInf else NInf)"
| "div_rounded rnd NInf (Finite b) = (if 0 \<le> b then NInf else PInf)"
| "div_rounded rnd PInf PInf = NaN"
| "div_rounded rnd PInf NInf = NaN"
| "div_rounded rnd NInf PInf = NaN"
| "div_rounded rnd NInf NInf = NaN"
| "div_rounded rnd NaN y = NaN"
| "div_rounded rnd x NaN = NaN"

definition fadd :: "cfloat \<Rightarrow> cfloat \<Rightarrow> cfloat" where
  "fadd x y = add_rounded round_binary32 x y"

definition fsub :: "cfloat \<Rightarrow> cfloat \<Rightarrow> cfloat" where
  "fsub x y = fadd x (fneg y)"

definition fmul :: "cfloat \<Rightarrow> cfloat \<Rightarrow> cfloat" where
  "fmul x y = mul_rounded round_binary32 x y"

definition fdiv :: "cfloat \<Rightarrow> cfloat \<Rightarrow> cfloat" where
  "fdiv x y = div_rounded round_binary32 x y"

definition dmul :: "cfloat \<Rightarrow> cfloat \<Rightarrow> cfloat" where
  "dmul x y = mul_rounded round_binary64 x y"

definition ddiv :: "cfloat \<Rightarrow> cfloat \<Rightarrow> cfloat" where
  "ddiv x y = div_rounded round_binary64 x y"

text \<open>
  The conversion of a \<^verbatim>\<open>double\<close> to \<^verbatim>\<open>float\<close> rounds to binary32. The conversion of a
  \<^verbatim>\<open>float\<close> to \<^verbatim>\<open>double\<close> is exact and is not written.
\<close>

fun float_of_double :: "cfloat \<Rightarrow> cfloat" where
  "float_of_double (Finite a) = round_binary32 a"
| "float_of_double PInf = PInf"
| "float_of_double NInf = NInf"
| "float_of_double NaN = NaN"

fun fless :: "cfloat \<Rightarrow> cfloat \<Rightarrow> bool" where
  "fless (Finite a) (Finite b) = (a < b)"
| "fless (Finite a) PInf = True"
| "fless (Finite a) NInf = False"
| "fless NInf (Finite b) = True"
| "fless NInf PInf = True"
| "fless NInf NInf = False"
| "fless PInf y = False"
| "fless NaN y = False"
| "fless x NaN = False"

fun fle :: "cfloat \<Rightarrow> cfloat \<Rightarrow> bool" where
  "fle (Finite a) (Finite b) = (a \<le> b)"
| "fle (Finite a) PInf = True"
| "fle (Finite a) NInf = False"
| "fle NInf (Finite b) = True"
| "fle NInf PInf = True"
| "fle NInf NInf = True"
| "fle PInf PInf = True"
| "fle PInf (Finite b) = False"
| "fle PInf NInf = False"
| "fle NaN y = False"
| "fle x NaN = False"

fun is_finite :: "cfloat \<Rightarrow> bool" where
  "is_finite (Finite a) = True"
| "is_finite PInf = False"
| "is_finite NInf = False"
| "is_finite NaN = False"

text \<open>
  \<^verbatim>\<open>pow(x, y)\<close> of \<^verbatim>\<open>math.h\<close>, a \<^verbatim>\<open>double\<close>, for a base that was converted from an unsigned
  integer (so the base is a non-negative whole number): \<open>x powr y\<close> rounded to binary64 for
  a positive base (the library function is taken to round correctly), and the special cases
  of the C standard (Annex F) for the base 0, the base 1 and a non-finite exponent.
\<close>

fun cpow :: "nat \<Rightarrow> cfloat \<Rightarrow> cfloat" where
  "cpow x (Finite y) =
     (if x = 0 then (if 0 < y then Finite 0 else if y = 0 then Finite 1 else PInf)
      else round_binary64 (real x powr y))"
| "cpow x PInf = (if x = 0 then Finite 0 else if x = 1 then Finite 1 else PInf)"
| "cpow x NInf = (if x = 0 then PInf else if x = 1 then Finite 1 else Finite 0)"
| "cpow x NaN = (if x = 1 then Finite 1 else NaN)"

text \<open>
  Converting a float to \<^verbatim>\<open>unsigned long\<close> (32 bits on the STM32 target) discards the
  fraction. The C standard leaves the conversion undefined when the whole part does not fit:
  for a NaN, an infinity, a value of -1 or below and a value of \<open>2 ^ 32\<close> or above. Undefined
  behaviour is the result \<open>None\<close>.
\<close>

fun float_to_ulong :: "cfloat \<Rightarrow> nat option" where
  "float_to_ulong (Finite r) =
     (if - 1 < r \<and> r < 2 ^ 32 then Some (if r < 0 then 0 else nat \<lfloor>r\<rfloor>) else None)"
| "float_to_ulong PInf = None"
| "float_to_ulong NInf = None"
| "float_to_ulong NaN = None"

text \<open>Converting an unsigned integer to float rounds (exactly, below \<open>2 ^ 24\<close>).\<close>

definition float_of_u16 :: "16 word \<Rightarrow> cfloat" where
  "float_of_u16 w = round_binary32 (real (unat w))"

definition float_of_u32 :: "32 word \<Rightarrow> cfloat" where
  "float_of_u32 w = round_binary32 (real (unat w))"

subsection \<open>Constants, types and the module's variables\<close>

definition OTHER_RESISTOR :: real where
  "OTHER_RESISTOR = 3300"

definition ADC_RESOLUTION_BITS :: nat where
  "ADC_RESOLUTION_BITS = 12"

definition SMOOTHING_HISTORY_SIZE :: "32 word" where
  "SMOOTHING_HISTORY_SIZE = 10"

text \<open>The number of elements of \<^verbatim>\<open>_smoothing_history_values\<close>.\<close>

definition HISTORY_ARRAY_LENGTH :: nat where
  "HISTORY_ARRAY_LENGTH = 100"

datatype ePhotoCellDeviceType = GL5516 | GL5528 | GL5537_1 | GL5537_2 | GL5539 | GL5549

record ldr_state =
  mult_value :: cfloat
  pow_value :: cfloat
  photocell_on_ground :: bool
  smoothing_sum :: cfloat
  smoothing_history_size :: "32 word"
  smoothing_history_next :: "32 word"
  smoothing_history_values :: "cfloat list"

text \<open>
  The state when the program starts: C sets variables of static storage duration to zero,
  and \<^verbatim>\<open>_photocell_on_ground\<close> has the initializer \<^verbatim>\<open>false\<close>.
\<close>

definition power_on :: ldr_state where
  "power_on =
     \<lparr> mult_value = Finite 0, pow_value = Finite 0, photocell_on_ground = False,
       smoothing_sum = Finite 0, smoothing_history_size = 0, smoothing_history_next = 0,
       smoothing_history_values = replicate HISTORY_ARRAY_LENGTH (Finite 0) \<rparr>"

subsection \<open>LDR_init\<close>

text \<open>
  The \<^verbatim>\<open>switch\<close> of \<^verbatim>\<open>LDR_init\<close>; \<^verbatim>\<open>GL5528\<close> shares the default branch. The
  multipliers are integer constants converted to float, the exponents \<^verbatim>\<open>double\<close> constants
  converted to float.
\<close>

fun preset_mult :: "ePhotoCellDeviceType \<Rightarrow> real" where
  "preset_mult GL5516 = 29634400"
| "preset_mult GL5537_1 = 32435800"
| "preset_mult GL5537_2 = 2801820"
| "preset_mult GL5539 = 208510000"
| "preset_mult GL5549 = 44682100"
| "preset_mult GL5528 = 32017200"

fun preset_pow :: "ePhotoCellDeviceType \<Rightarrow> real" where
  "preset_pow GL5516 = 1.6689"
| "preset_pow GL5537_1 = 1.4899"
| "preset_pow GL5537_2 = 1.1772"
| "preset_pow GL5539 = 1.4850"
| "preset_pow GL5549 = 1.2750"
| "preset_pow GL5528 = 1.5832"

text \<open>
  The \<^verbatim>\<open>for\<close> loop that writes the marker -1 into the slots \<open>i, i + 1, ..., n - 1\<close>.
\<close>

function fill_history :: "32 word \<Rightarrow> 32 word \<Rightarrow> cfloat list \<Rightarrow> cfloat list" where
  "fill_history i n vals =
     (if i < n then fill_history (i + 1) n (vals[unat i := Finite (- 1)]) else vals)"
  by pat_completeness auto
termination
proof (relation "measure (\<lambda>(i, n, vals). unat n - unat i)")
  show "wf (measure (\<lambda>(i, n, vals). unat n - unat i))"
    by simp
next
  fix i n :: "32 word" and vals :: "cfloat list"
  assume less: "i < n"
  then have "unat i < unat n"
    by (simp add: word_less_nat_alt)
  moreover from less have "unat (i + 1) = Suc (unat i)"
    by unat_arith
  ultimately show "((i + 1, n, vals[unat i := Finite (- 1)]), (i, n, vals))
      \<in> measure (\<lambda>(i, n, vals). unat n - unat i)"
    by simp
qed

declare fill_history.simps [simp del]

text \<open>
  \<^verbatim>\<open>LDR_init\<close>, with the macro \<^verbatim>\<open>SMOOTHING_HISTORY_SIZE\<close> as the argument \<open>hsize\<close>:
  the function as compiled is \<open>LDR_init\<close> below. It assigns the orientation flag, the
  capacity, the two calibration parameters and the first \<open>capacity\<close> slots of the history.
  It assigns neither \<^verbatim>\<open>_smoothing_sum\<close> nor \<^verbatim>\<open>_smoothing_history_next\<close>.
\<close>

definition LDR_init_sized :: "32 word \<Rightarrow> ePhotoCellDeviceType \<Rightarrow> ldr_state \<Rightarrow> ldr_state" where
  "LDR_init_sized hsize typeDevice st =
     (let vals = smoothing_history_values st;
          size1 = (if word_of_nat HISTORY_ARRAY_LENGTH < hsize then word_of_nat HISTORY_ARRAY_LENGTH
                   else hsize)
      in st \<lparr> photocell_on_ground := False,
              smoothing_history_size := size1,
              mult_value := round_binary32 (preset_mult typeDevice),
              pow_value := float_of_double (round_binary64 (preset_pow typeDevice)),
              smoothing_history_values := fill_history 0 size1 vals \<rparr>)"

definition LDR_init :: "ePhotoCellDeviceType \<Rightarrow> ldr_state \<Rightarrow> ldr_state" where
  "LDR_init typeDevice st = LDR_init_sized SMOOTHING_HISTORY_SIZE typeDevice st"

subsection \<open>Setters and unit conversion\<close>

text \<open>
  The constant \<^verbatim>\<open>10.764\<close> is a \<^verbatim>\<open>double\<close>: the argument is converted to \<^verbatim>\<open>double\<close>, the
  operation rounds to binary64, and the \<^verbatim>\<open>return\<close> converts the result to \<^verbatim>\<open>float\<close>.
\<close>

definition LDR_setPhotocellPositionOnGround :: "bool \<Rightarrow> ldr_state \<Rightarrow> ldr_state" where
  "LDR_setPhotocellPositionOnGround on_ground st = st \<lparr> photocell_on_ground := on_ground \<rparr>"

definition LDR_updatePhotocellParameters :: "cfloat \<Rightarrow> cfloat \<Rightarrow> ldr_state \<Rightarrow> ldr_state" where
  "LDR_updatePhotocellParameters mult_v pow_v st = st \<lparr> mult_value := mult_v, pow_value := pow_v \<rparr>"

definition LDR_luxToFootCandles :: "cfloat \<Rightarrow> cfloat" where
  "LDR_luxToFootCandles intensity_in_lux =
     float_of_double (ddiv intensity_in_lux (round_binary64 10.764))"

definition LDR_footCandlesToLux :: "cfloat \<Rightarrow> cfloat" where
  "LDR_footCandlesToLux intensity_in_footcandles =
     float_of_double (dmul (round_binary64 10.764) intensity_in_footcandles)"

subsection \<open>LDR_rawAnalogValueToLux\<close>

text \<open>
  The function in the order of its statements: the full-scale guard on the raw code, the
  ratio of the divider, the resistance of the photocell (converted to \<^verbatim>\<open>unsigned long\<close>),
  and the power law. \<^verbatim>\<open>pow(2, ADC_RESOLUTION_BITS)\<close> is exactly 4096, and 4096, 3300 and 1 are
  floats.
\<close>

definition full_scale :: nat where
  "full_scale = 2 ^ ADC_RESOLUTION_BITS"

definition guarded_raw :: "16 word \<Rightarrow> 16 word" where
  "guarded_raw raw_analog_value =
     (if full_scale = unat raw_analog_value then raw_analog_value - 1 else raw_analog_value)"

definition divider_ratio :: "16 word \<Rightarrow> cfloat" where
  "divider_ratio raw_analog_value =
     fsub (fdiv (Finite (real full_scale)) (float_of_u16 (guarded_raw raw_analog_value))) (Finite 1)"

definition divider_resistance :: "ldr_state \<Rightarrow> 16 word \<Rightarrow> cfloat" where
  "divider_resistance st raw_analog_value =
     (if photocell_on_ground st
      then fdiv (Finite OTHER_RESISTOR) (divider_ratio raw_analog_value)
      else fmul (Finite OTHER_RESISTOR) (divider_ratio raw_analog_value))"

definition photocell_resistor :: "ldr_state \<Rightarrow> 16 word \<Rightarrow> nat option" where
  "photocell_resistor st raw_analog_value = float_to_ulong (divider_resistance st raw_analog_value)"

definition resistor_to_lux :: "ldr_state \<Rightarrow> nat \<Rightarrow> cfloat" where
  "resistor_to_lux st resistor =
     fdiv (mult_value st) (float_of_double (cpow resistor (pow_value st)))"

definition LDR_rawAnalogValueToLux :: "ldr_state \<Rightarrow> 16 word \<Rightarrow> cfloat option" where
  "LDR_rawAnalogValueToLux st raw_analog_value =
     (case photocell_resistor st raw_analog_value of
        None \<Rightarrow> None
      | Some resistor \<Rightarrow> Some (resistor_to_lux st resistor))"

definition LDR_getCurrentLux :: "ldr_state \<Rightarrow> 16 word \<Rightarrow> cfloat option" where
  "LDR_getCurrentLux st rawAnalogValue = LDR_rawAnalogValueToLux st rawAnalogValue"

definition LDR_getCurrentFootCandles :: "ldr_state \<Rightarrow> 16 word \<Rightarrow> cfloat option" where
  "LDR_getCurrentFootCandles st rawAnalogValue =
     map_option LDR_luxToFootCandles (LDR_getCurrentLux st rawAnalogValue)"

subsection \<open>LDR_getSmoothedLux\<close>

text \<open>
  \<open>smoothing_update\<close> is the body of \<^verbatim>\<open>LDR_getSmoothedLux\<close> with the value of
  \<^verbatim>\<open>LDR_getCurrentLux(rawAnalogValue)\<close> as the argument \<open>lux\<close>: the source calls it once on
  every path, and it changes no variable. The result is the returned average and the new
  state. Reading the history outside the array is undefined behaviour (\<open>None\<close>). The test
  for an unfilled slot compares with the float constant \<^verbatim>\<open>-0.1f\<close>.
\<close>

definition is_unfilled :: "cfloat \<Rightarrow> bool" where
  "is_unfilled v = fless v (round_binary32 (- 0.1))"

definition smoothing_update :: "ldr_state \<Rightarrow> cfloat \<Rightarrow> (cfloat \<times> ldr_state) option" where
  "smoothing_update st lux =
     (let hsize = smoothing_history_size st;
          nxt = smoothing_history_next st;
          vals = smoothing_history_values st
      in if hsize = 0 then Some (lux, st)
         else if length vals \<le> unat nxt then None
         else if is_unfilled (vals ! unat nxt) then
           (let vals1 = vals[unat nxt := lux];
                sum1 = fadd (smoothing_sum st) (vals1 ! unat nxt)
            in if nxt < hsize - 1
               then Some (fdiv sum1 (float_of_u32 (nxt + 1)),
                          st \<lparr> smoothing_history_values := vals1, smoothing_sum := sum1,
                               smoothing_history_next := nxt + 1 \<rparr>)
               else Some (fdiv sum1 (float_of_u32 hsize),
                          st \<lparr> smoothing_history_values := vals1, smoothing_sum := sum1,
                               smoothing_history_next := 0 \<rparr>))
         else
           (let sum1 = fsub (smoothing_sum st) (vals ! unat nxt);
                vals1 = vals[unat nxt := lux];
                sum2 = fadd sum1 (vals1 ! unat nxt);
                nxt1 = (if nxt < hsize - 1 then nxt + 1 else 0)
            in Some (fdiv sum2 (float_of_u32 hsize),
                     st \<lparr> smoothing_history_values := vals1, smoothing_sum := sum2,
                          smoothing_history_next := nxt1 \<rparr>)))"

definition LDR_getSmoothedLux :: "ldr_state \<Rightarrow> 16 word \<Rightarrow> (cfloat \<times> ldr_state) option" where
  "LDR_getSmoothedLux st rawAnalogValue =
     (case LDR_getCurrentLux st rawAnalogValue of
        None \<Rightarrow> None
      | Some lux \<Rightarrow> smoothing_update st lux)"

definition LDR_getSmoothedFootCandles :: "ldr_state \<Rightarrow> 16 word \<Rightarrow> (cfloat \<times> ldr_state) option" where
  "LDR_getSmoothedFootCandles st rawAnalogValue =
     map_option (\<lambda>(v, st1). (LDR_luxToFootCandles v, st1)) (LDR_getSmoothedLux st rawAnalogValue)"

text \<open>Successive calls: the returned values in order, and the final state.\<close>

fun smoothing_updates :: "ldr_state \<Rightarrow> cfloat list \<Rightarrow> (cfloat list \<times> ldr_state) option" where
  "smoothing_updates st [] = Some ([], st)"
| "smoothing_updates st (lux # rest) =
     (case smoothing_update st lux of
        None \<Rightarrow> None
      | Some (v, st1) \<Rightarrow>
          (case smoothing_updates st1 rest of
             None \<Rightarrow> None
           | Some (vs, st2) \<Rightarrow> Some (v # vs, st2)))"

fun LDR_getSmoothedLux_calls :: "ldr_state \<Rightarrow> 16 word list \<Rightarrow> (cfloat list \<times> ldr_state) option" where
  "LDR_getSmoothedLux_calls st [] = Some ([], st)"
| "LDR_getSmoothedLux_calls st (raw # rest) =
     (case LDR_getSmoothedLux st raw of
        None \<Rightarrow> None
      | Some (v, st1) \<Rightarrow>
          (case LDR_getSmoothedLux_calls st1 rest of
             None \<Rightarrow> None
           | Some (vs, st2) \<Rightarrow> Some (v # vs, st2)))"

subsection \<open>Reachable states and the sum of the history\<close>

text \<open>
  \<open>reachable_after hsize typeDevice k st\<close>: \<open>st\<close> is the state after the first
  \<^verbatim>\<open>LDR_init\<close> of a run (with the capacity \<open>hsize\<close>) and \<open>k\<close> calls of
  \<^verbatim>\<open>LDR_getSmoothedLux\<close> whose behaviour is defined.
\<close>

inductive reachable_after :: "32 word \<Rightarrow> ePhotoCellDeviceType \<Rightarrow> nat \<Rightarrow> ldr_state \<Rightarrow> bool"
  for hsize :: "32 word" and typeDevice :: ePhotoCellDeviceType where
  reachable_init: "reachable_after hsize typeDevice 0 (LDR_init_sized hsize typeDevice power_on)"
| reachable_call: "reachable_after hsize typeDevice k st \<Longrightarrow> LDR_getSmoothedLux st raw = Some (v, st') \<Longrightarrow>
     reachable_after hsize typeDevice (Suc k) st'"

text \<open>
  The sum the documentation of \<^verbatim>\<open>_smoothing_sum\<close> speaks of ("current sum of valid
  values"), written after the specification's words: the float sum, taken in index order from
  0, of the entries among the first \<open>capacity\<close> slots of the history that are not unfilled,
  where a slot counts as unfilled by the test of the code (\<open>is_unfilled\<close>).
\<close>

definition history_sum :: "ldr_state \<Rightarrow> cfloat" where
  "history_sum st =
     foldl fadd (Finite 0) (filter (\<lambda>v. \<not> is_unfilled v)
       (take (unat (smoothing_history_size st)) (smoothing_history_values st)))"


text \<open>
  Agreement within a relative tolerance: \<open>v\<close> is a finite number at most \<open>tol * \<bar>x\<bar>\<close>
  away from \<open>x\<close>.
\<close>

fun within_tolerance :: "real \<Rightarrow> real \<Rightarrow> cfloat \<Rightarrow> bool" where
  "within_tolerance tol x (Finite y) = (\<bar>y - x\<bar> \<le> tol * \<bar>x\<bar>)"
| "within_tolerance tol x PInf = False"
| "within_tolerance tol x NInf = False"
| "within_tolerance tol x NaN = False"

section \<open>Properties\<close>


subsection \<open>Rounding to the nearest integer, ties to even\<close>

lemma round_half_even_of_int [simp]: "round_half_even (of_int n) = n"
  by (simp add: round_half_even_def)

lemma round_half_even_0 [simp]: "round_half_even 0 = 0"
  using round_half_even_of_int [of 0] by simp

lemma round_half_even_power2 [simp]: "round_half_even (2 ^ n) = 2 ^ n"
  using round_half_even_of_int [of "2 ^ n"] by simp

lemma round_half_even_bounds:
  "of_int (round_half_even y) \<le> y + 1 / 2 \<and> y - 1 / 2 \<le> of_int (round_half_even y)"
  unfolding round_half_even_def by (auto; linarith)

lemma round_half_even_error: "\<bar>of_int (round_half_even y) - y\<bar> \<le> 1 / 2"
  using round_half_even_bounds [of y] by linarith

lemma round_half_even_mono:
  assumes "a \<le> b"
  shows "round_half_even a \<le> round_half_even b"
proof (cases "\<lfloor>a\<rfloor> = \<lfloor>b\<rfloor>")
  case True
  with assms show ?thesis
    unfolding round_half_even_def by (auto; linarith)
next
  case False
  with assms have lt: "\<lfloor>a\<rfloor> < \<lfloor>b\<rfloor>"
    by (simp add: floor_mono order.strict_iff_order)
  have "round_half_even a \<le> \<lfloor>a\<rfloor> + 1"
    unfolding round_half_even_def by auto
  moreover have "\<lfloor>b\<rfloor> \<le> round_half_even b"
    unfolding round_half_even_def by auto
  ultimately show ?thesis using lt by linarith
qed

lemma round_half_even_minus: "round_half_even (- y) = - round_half_even y"
proof (cases "y = of_int \<lfloor>y\<rfloor>")
  case True
  then obtain n where "y = of_int n" ..
  then show ?thesis by (simp flip: of_int_minus)
next
  case False
  then have fl: "\<lfloor>- y\<rfloor> = - \<lfloor>y\<rfloor> - 1"
    by (metis ceiling_altdef diff_minus_eq_add floor_minus minus_diff_eq add.commute)
  have frac: "- y - of_int (- \<lfloor>y\<rfloor> - 1) = 1 - (y - of_int \<lfloor>y\<rfloor>)"
    by simp
  show ?thesis
    unfolding round_half_even_def fl frac
    by (auto; linarith)
qed


subsection \<open>The exponent of a number\<close>

lemma two_powr_int: "(2::real) powr real_of_int k = 2 powi k"
  by (simp add: powr_real_of_int')

lemma two_powi_less_cancel: "(2::real) powi a < 2 powi b \<Longrightarrow> a < b"
  by (rule ccontr) (use power_int_increasing [of b a "2::real"] in simp)

lemma two_powi_le_cancel: "(2::real) powi a \<le> 2 powi b \<Longrightarrow> a \<le> b"
  by (rule ccontr) (use power_int_strict_increasing [of b a "2::real"] in simp)

lemma floor_log2_eq:
  assumes "2 powi e \<le> \<bar>x\<bar>" and "\<bar>x\<bar> < 2 powi (e + 1)"
  shows "\<lfloor>log 2 \<bar>x\<bar>\<rfloor> = e"
proof -
  have pos: "0 < \<bar>x\<bar>"
    using assms(1) by (smt (verit) zero_less_power_int)
  have "2 powr real_of_int e \<le> \<bar>x\<bar> \<and> \<bar>x\<bar> < 2 powr (real_of_int e + 1)"
    using assms two_powr_int [of e] two_powr_int [of "e + 1"] by simp
  with pos show ?thesis
    by (simp add: floor_log_eq_powr_iff)
qed

lemma floor_log2_bounds:
  assumes "x \<noteq> 0"
  shows "2 powi \<lfloor>log 2 \<bar>x\<bar>\<rfloor> \<le> \<bar>x\<bar> \<and> \<bar>x\<bar> < 2 powi (\<lfloor>log 2 \<bar>x\<bar>\<rfloor> + 1)"
proof -
  from assms have pos: "0 < \<bar>x\<bar>" by simp
  have "\<lfloor>log 2 \<bar>x\<bar>\<rfloor> = \<lfloor>log 2 \<bar>x\<bar>\<rfloor>" ..
  then have "2 powr real_of_int \<lfloor>log 2 \<bar>x\<bar>\<rfloor> \<le> \<bar>x\<bar> \<and> \<bar>x\<bar> < 2 powr (real_of_int \<lfloor>log 2 \<bar>x\<bar>\<rfloor> + 1)"
    using pos by (subst (asm) floor_log_eq_powr_iff) simp_all
  then show ?thesis
    using two_powr_int [of "\<lfloor>log 2 \<bar>x\<bar>\<rfloor>"] two_powr_int [of "\<lfloor>log 2 \<bar>x\<bar>\<rfloor> + 1"] by simp
qed

lemma float_exponent_eq:
  assumes "2 powi e \<le> \<bar>x\<bar>" and "\<bar>x\<bar> < 2 powi (e + 1)"
  shows "float_exponent emin x = max emin e"
  by (simp add: float_exponent_def floor_log2_eq [OF assms])

lemma float_exponent_subnormal:
  assumes "x \<noteq> 0" and "\<bar>x\<bar> < 2 powi emin"
  shows "float_exponent emin x = emin"
proof -
  from floor_log2_bounds [OF assms(1)] assms(2)
  have "(2::real) powi \<lfloor>log 2 \<bar>x\<bar>\<rfloor> < 2 powi emin" by linarith
  then have "\<lfloor>log 2 \<bar>x\<bar>\<rfloor> < emin"
    by (rule two_powi_less_cancel)
  then show ?thesis by (simp add: float_exponent_def)
qed

lemma float_exponent_upper:
  assumes "x \<noteq> 0"
  shows "\<bar>x\<bar> < 2 powi (float_exponent emin x + 1)"
proof -
  have "(2::real) powi (\<lfloor>log 2 \<bar>x\<bar>\<rfloor> + 1) \<le> 2 powi (float_exponent emin x + 1)"
    by (intro power_int_increasing) (simp_all add: float_exponent_def)
  with floor_log2_bounds [OF assms] show ?thesis by linarith
qed

lemma float_exponent_lower:
  assumes "x \<noteq> 0" and "emin < float_exponent emin x"
  shows "2 powi float_exponent emin x \<le> \<bar>x\<bar>"
proof -
  from assms(2) have "float_exponent emin x = \<lfloor>log 2 \<bar>x\<bar>\<rfloor>"
    by (simp add: float_exponent_def max_def split: if_splits)
  with floor_log2_bounds [OF assms(1)] show ?thesis by simp
qed

lemma float_exponent_minus [simp]: "float_exponent emin (- x) = float_exponent emin x"
  by (simp add: float_exponent_def)

lemma float_exponent_mono:
  assumes "0 < x" and "x \<le> y"
  shows "float_exponent emin x \<le> float_exponent emin y"
proof -
  from assms have "log 2 \<bar>x\<bar> \<le> log 2 \<bar>y\<bar>" by simp
  then have "\<lfloor>log 2 \<bar>x\<bar>\<rfloor> \<le> \<lfloor>log 2 \<bar>y\<bar>\<rfloor>" by (rule floor_mono)
  then show ?thesis by (simp add: float_exponent_def max_def)
qed

lemma float_ulp_pos [simp]: "0 < float_ulp prec emin x"
  by (simp add: float_ulp_def)

lemma float_ulp_neq0 [simp]: "float_ulp prec emin x \<noteq> 0"
  by (simp add: float_ulp_def)

lemma float_ulp_nonneg [simp]: "0 \<le> float_ulp prec emin x"
  by (simp add: float_ulp_def)

lemma float_ulp_minus [simp]: "float_ulp prec emin (- x) = float_ulp prec emin x"
  by (simp add: float_ulp_def)


subsection \<open>Rounding with an unbounded exponent\<close>

lemma round_unbounded_0 [simp]: "round_unbounded prec emin 0 = 0"
  by (simp add: round_unbounded_def)

lemma round_unbounded_minus: "round_unbounded prec emin (- x) = - round_unbounded prec emin x"
  by (simp add: round_unbounded_def round_half_even_minus)

lemma two_powi_nat: "0 \<le> k \<Longrightarrow> (2::real) powi k = of_int (2 ^ nat k)"
  by (simp add: power_int_def)

lemma ulp_times: "float_ulp prec emin x * 2 powi prec = 2 powi (float_exponent emin x + 1)"
  by (simp add: float_ulp_def flip: power_int_add)

lemma ulp_times_pred: "float_ulp prec emin x * 2 powi (prec - 1) = 2 powi (float_exponent emin x)"
  by (simp add: float_ulp_def flip: power_int_add)

lemma round_unbounded_pos_upper:
  assumes "0 < x" and "0 \<le> prec"
  shows "round_unbounded prec emin x \<le> 2 powi (float_exponent emin x + 1)"
proof -
  let ?u = "float_ulp prec emin x"
  from assms(1) have "x < 2 powi (float_exponent emin x + 1)"
    using float_exponent_upper [of x emin] by simp
  then have "x < ?u * 2 powi prec" by (simp add: ulp_times)
  then have "x / ?u \<le> 2 powi prec"
    by (simp add: pos_divide_le_eq mult.commute)
  then have "x / ?u \<le> of_int (2 ^ nat prec)"
    using assms(2) by (simp add: two_powi_nat)
  then have "round_half_even (x / ?u) \<le> round_half_even (of_int (2 ^ nat prec))"
    by (rule round_half_even_mono)
  then have "round_half_even (x / ?u) \<le> 2 ^ nat prec" by simp
  then have "(of_int (round_half_even (x / ?u)) :: real) \<le> of_int (2 ^ nat prec)"
    by (simp only: of_int_le_iff)
  then have "of_int (round_half_even (x / ?u)) \<le> (2::real) powi prec"
    using assms(2) by (simp add: two_powi_nat)
  then have "of_int (round_half_even (x / ?u)) * ?u \<le> 2 powi prec * ?u"
    by (intro mult_right_mono) simp_all
  then show ?thesis
    using assms(1) by (simp add: round_unbounded_def ulp_times mult.commute)
qed

lemma round_unbounded_pos_lower:
  assumes "0 < x" and "1 \<le> prec" and "emin < float_exponent emin x"
  shows "2 powi (float_exponent emin x) \<le> round_unbounded prec emin x"
proof -
  let ?u = "float_ulp prec emin x"
  from assms(1,3) have "2 powi float_exponent emin x \<le> x"
    using float_exponent_lower [of x emin] by simp
  then have "?u * 2 powi (prec - 1) \<le> x" by (simp add: ulp_times_pred)
  then have "2 powi (prec - 1) \<le> x / ?u"
    by (simp add: pos_le_divide_eq mult.commute)
  then have "of_int (2 ^ nat (prec - 1)) \<le> x / ?u"
    using assms(2) by (simp add: two_powi_nat)
  then have "round_half_even (of_int (2 ^ nat (prec - 1))) \<le> round_half_even (x / ?u)"
    by (rule round_half_even_mono)
  then have "2 ^ nat (prec - 1) \<le> round_half_even (x / ?u)" by simp
  then have "(of_int (2 ^ nat (prec - 1)) :: real) \<le> of_int (round_half_even (x / ?u))"
    by (simp only: of_int_le_iff)
  then have "(2::real) powi (prec - 1) \<le> of_int (round_half_even (x / ?u))"
    using assms(2) by (simp add: two_powi_nat)
  then have "2 powi (prec - 1) * ?u \<le> of_int (round_half_even (x / ?u)) * ?u"
    by (intro mult_right_mono) simp_all
  then show ?thesis
    using assms(1) by (simp add: round_unbounded_def ulp_times_pred mult.commute)
qed

lemma round_unbounded_nonneg:
  assumes "0 \<le> x"
  shows "0 \<le> round_unbounded prec emin x"
proof (cases "x = 0")
  case True
  then show ?thesis by simp
next
  case False
  with assms have "0 \<le> x / float_ulp prec emin x" by (simp add: zero_le_divide_iff)
  then have "0 \<le> round_half_even (x / float_ulp prec emin x)"
    using round_half_even_mono [of 0 "x / float_ulp prec emin x"] by simp
  then show ?thesis using False by (simp add: round_unbounded_def)
qed

lemma round_unbounded_mono_pos:
  assumes "0 < x" and "x \<le> y" and "1 \<le> prec"
  shows "round_unbounded prec emin x \<le> round_unbounded prec emin y"
proof -
  from assms have y: "0 < y" by simp
  have le: "float_exponent emin x \<le> float_exponent emin y"
    using assms(1,2) by (rule float_exponent_mono)
  show ?thesis
  proof (cases "float_exponent emin x = float_exponent emin y")
    case True
    then have u: "float_ulp prec emin x = float_ulp prec emin y"
      by (simp add: float_ulp_def)
    from assms(2) have "x / float_ulp prec emin y \<le> y / float_ulp prec emin y"
      by (intro divide_right_mono) simp_all
    then have "round_half_even (x / float_ulp prec emin y) \<le> round_half_even (y / float_ulp prec emin y)"
      by (rule round_half_even_mono)
    then have "(of_int (round_half_even (x / float_ulp prec emin y)) :: real)
        \<le> of_int (round_half_even (y / float_ulp prec emin y))"
      by (simp only: of_int_le_iff)
    then have "of_int (round_half_even (x / float_ulp prec emin y)) * float_ulp prec emin y
        \<le> of_int (round_half_even (y / float_ulp prec emin y)) * float_ulp prec emin y"
      by (intro mult_right_mono) simp_all
    then show ?thesis
      using assms(1) y by (simp add: round_unbounded_def u)
  next
    case False
    with le have lt: "float_exponent emin x < float_exponent emin y" by simp
    have "emin \<le> float_exponent emin x" by (simp add: float_exponent_def)
    with lt have emin: "emin < float_exponent emin y" by simp
    have "round_unbounded prec emin x \<le> 2 powi (float_exponent emin x + 1)"
      using assms(1,3) by (intro round_unbounded_pos_upper) simp_all
    also have "\<dots> \<le> 2 powi (float_exponent emin y)"
      using lt by (intro power_int_increasing) simp_all
    also have "\<dots> \<le> round_unbounded prec emin y"
      using y assms(3) emin by (rule round_unbounded_pos_lower)
    finally show ?thesis .
  qed
qed

lemma round_unbounded_mono:
  assumes "x \<le> y" and "1 \<le> prec"
  shows "round_unbounded prec emin x \<le> round_unbounded prec emin y"
proof -
  consider "0 < x" | "x \<le> 0" "0 \<le> y" | "y < 0" by linarith
  then show ?thesis
  proof cases
    case 1
    then show ?thesis using assms by (intro round_unbounded_mono_pos)
  next
    case 2
    from 2(1) have "0 \<le> round_unbounded prec emin (- x)"
      by (intro round_unbounded_nonneg) simp
    then have "round_unbounded prec emin x \<le> 0"
      by (simp add: round_unbounded_minus)
    also have "0 \<le> round_unbounded prec emin y"
      using 2(2) by (rule round_unbounded_nonneg)
    finally show ?thesis .
  next
    case 3
    with assms(1) have "0 < - y" "- y \<le> - x" by simp_all
    from round_unbounded_mono_pos [OF this assms(2)]
    show ?thesis by (simp add: round_unbounded_minus)
  qed
qed


lemma round_unbounded_eval:
  assumes "2 powi e \<le> \<bar>x\<bar>" and "\<bar>x\<bar> < 2 powi (e + 1)" and "emin \<le> e"
  shows "round_unbounded prec emin x =
           of_int (round_half_even (x / 2 powi (e - prec + 1))) * 2 powi (e - prec + 1)"
proof -
  from assms(1) have "x \<noteq> 0"
    by (smt (verit) zero_less_power_int)
  moreover have "float_exponent emin x = e"
    using float_exponent_eq [OF assms(1,2), of emin] assms(3) by simp
  ultimately show ?thesis
    by (simp add: round_unbounded_def float_ulp_def)
qed

lemma round_unbounded_eval_subnormal:
  assumes "x \<noteq> 0" and "\<bar>x\<bar> < 2 powi emin"
  shows "round_unbounded prec emin x =
           of_int (round_half_even (x / 2 powi (emin - prec + 1))) * 2 powi (emin - prec + 1)"
  using assms by (simp add: round_unbounded_def float_ulp_def float_exponent_subnormal)

lemma round_unbounded_representable:
  assumes x: "x = of_int n * 2 powi k" and n: "\<bar>n\<bar> < 2 ^ nat prec"
    and k: "emin - prec + 1 \<le> k" and prec: "0 \<le> prec"
  shows "round_unbounded prec emin x = x"
proof (cases "x = 0")
  case True
  then show ?thesis by simp
next
  case False
  let ?e = "float_exponent emin x"
  have le: "?e - prec + 1 \<le> k"
  proof (cases "emin < ?e")
    case True
    from float_exponent_lower [OF False True] have "2 powi ?e \<le> \<bar>x\<bar>" .
    also have "\<bar>x\<bar> = of_int \<bar>n\<bar> * 2 powi k"
      by (simp add: x abs_mult)
    also have "\<dots> < of_int (2 ^ nat prec) * 2 powi k"
      using n by (intro mult_strict_right_mono) (simp_all only: of_int_less_iff zero_less_power_int zero_less_numeral)
    also have "(of_int (2 ^ nat prec) :: real) = 2 powi prec"
      using prec by (simp add: power_int_def)
    also have "(2::real) powi prec * 2 powi k = 2 powi (prec + k)"
      by (simp add: power_int_add)
    finally have "?e < prec + k" by (rule two_powi_less_cancel)
    then show ?thesis by simp
  next
    case False
    moreover have "emin \<le> ?e" by (simp add: float_exponent_def)
    ultimately have "?e = emin" by simp
    with k show ?thesis by simp
  qed
  define d where "d = nat (k - (?e - prec + 1))"
  define u where "u = float_ulp prec emin x"
  from le have d: "k = (?e - prec + 1) + int d" by (simp add: d_def)
  have u: "u = 2 powi (?e - prec + 1)"
    by (simp add: u_def float_ulp_def)
  have upos: "u \<noteq> 0" by (simp add: u_def)
  have "2 powi k = u * 2 ^ d"
    by (subst d) (simp add: power_int_add u)
  with x have "x = of_int n * (u * 2 ^ d)" by simp
  with upos have scaled: "x / u = of_int (n * 2 ^ d)"
    by simp
  have "round_unbounded prec emin x = of_int (round_half_even (x / u)) * u"
    using False by (simp add: round_unbounded_def u_def)
  also have "\<dots> = of_int (n * 2 ^ d) * u"
    by (simp only: scaled round_half_even_of_int)
  also have "\<dots> = x"
    using scaled upos by (simp add: field_simps)
  finally show ?thesis .
qed

lemma round_unbounded_error:
  assumes "2 powi emin \<le> \<bar>x\<bar>"
  shows "\<bar>round_unbounded prec emin x - x\<bar> \<le> 2 powi (- prec) * \<bar>x\<bar>"
proof -
  let ?u = "float_ulp prec emin x"
  let ?e = "float_exponent emin x"
  from assms have nz: "x \<noteq> 0"
    by (smt (verit) zero_less_power_int)
  have low: "2 powi ?e \<le> \<bar>x\<bar>"
  proof (cases "emin < ?e")
    case True
    then show ?thesis using nz by (intro float_exponent_lower)
  next
    case False
    moreover have "emin \<le> ?e" by (simp add: float_exponent_def)
    ultimately have "?e = emin" by simp
    with assms show ?thesis by simp
  qed
  have "\<bar>of_int (round_half_even (x / ?u)) - x / ?u\<bar> \<le> 1 / 2"
    by (rule round_half_even_error)
  then have "\<bar>of_int (round_half_even (x / ?u)) - x / ?u\<bar> * ?u \<le> 1 / 2 * ?u"
    by (intro mult_right_mono) simp_all
  moreover have "\<bar>of_int (round_half_even (x / ?u)) - x / ?u\<bar> * ?u =
      \<bar>of_int (round_half_even (x / ?u)) * ?u - x\<bar>"
  proof -
    have "\<bar>of_int (round_half_even (x / ?u)) - x / ?u\<bar> * ?u =
        \<bar>(of_int (round_half_even (x / ?u)) - x / ?u) * ?u\<bar>"
      by (simp add: abs_mult)
    also have "(of_int (round_half_even (x / ?u)) - x / ?u) * ?u = of_int (round_half_even (x / ?u)) * ?u - x"
      by (simp add: left_diff_distrib)
    finally show ?thesis .
  qed
  ultimately have "\<bar>round_unbounded prec emin x - x\<bar> \<le> 1 / 2 * ?u"
    using nz by (simp add: round_unbounded_def)
  also have "1 / 2 * ?u = 2 powi (- prec) * 2 powi ?e"
    by (simp add: float_ulp_def power_int_add power_int_diff power_int_minus field_simps)
  also have "\<dots> \<le> 2 powi (- prec) * \<bar>x\<bar>"
    using low by (intro mult_left_mono) simp_all
  finally show ?thesis .
qed


subsection \<open>Rounding to a format\<close>

lemma two_powi_not_le_0 [simp]: "\<not> (2::real) powi k \<le> 0"
  by (simp add: not_le)

lemma round_float_finite:
  "\<bar>round_unbounded prec emin x\<bar> < 2 powi (emax + 1) \<Longrightarrow>
   round_float prec emin emax x = Finite (round_unbounded prec emin x)"
  by (simp add: round_float_def Let_def)

lemma round_float_0 [simp]: "round_float prec emin emax 0 = Finite 0"
  by (simp add: round_float_def)

lemma round_float_representable:
  assumes "x = of_int n * 2 powi k" and "\<bar>n\<bar> < 2 ^ nat prec"
    and "emin - prec + 1 \<le> k" and "0 \<le> prec" and "\<bar>x\<bar> < 2 powi (emax + 1)"
  shows "round_float prec emin emax x = Finite x"
  using round_unbounded_representable [OF assms(1-4)] assms(5)
  by (simp add: round_float_def)

lemma round_unbounded_nonpos:
  assumes "x \<le> 0"
  shows "round_unbounded prec emin x \<le> 0"
proof -
  from assms have "0 \<le> round_unbounded prec emin (- x)"
    by (intro round_unbounded_nonneg) simp
  then show ?thesis by (simp add: round_unbounded_minus)
qed

lemma round_float_mono:
  assumes "x \<le> y" and "1 \<le> prec"
  shows "fle (round_float prec emin emax x) (round_float prec emin emax y)"
proof -
  let ?T = "(2::real) powi (emax + 1)"
  have T: "0 < ?T" by simp
  have mono: "round_unbounded prec emin x \<le> round_unbounded prec emin y"
    using assms by (rule round_unbounded_mono)
  show ?thesis
  proof (cases "?T \<le> \<bar>round_unbounded prec emin x\<bar>")
    case True
    note ovx = this
    show ?thesis
    proof (cases "0 < x")
      case True
      then have "0 \<le> round_unbounded prec emin x"
        by (intro round_unbounded_nonneg) simp
      with ovx mono have "?T \<le> \<bar>round_unbounded prec emin y\<bar>" by linarith
      moreover from True assms(1) have "0 < y" by simp
      ultimately show ?thesis using ovx True by (simp add: round_float_def)
    next
      case False
      with ovx show ?thesis by (simp add: round_float_def Let_def)
    qed
  next
    case False
    note finx = this
    show ?thesis
    proof (cases "?T \<le> \<bar>round_unbounded prec emin y\<bar>")
      case True
      note ovy = this
      show ?thesis
      proof (cases "0 < y")
        case True
        with ovy finx show ?thesis by (simp add: round_float_def)
      next
        case False
        then have "round_unbounded prec emin y \<le> 0"
          by (intro round_unbounded_nonpos) simp
        with ovy mono finx T have False by linarith
        then show ?thesis ..
      qed
    next
      case False
      with finx mono show ?thesis by (simp add: round_float_def)
    qed
  qed
qed

lemma round_float_minus:
  "round_float prec emin emax (- x) =
    (case round_float prec emin emax x of Finite y \<Rightarrow> Finite (- y) | PInf \<Rightarrow> NInf | NInf \<Rightarrow> PInf | NaN \<Rightarrow> NaN)"
  by (auto simp: round_float_def Let_def round_unbounded_minus)

lemma round_float_nonneg:
  assumes "0 \<le> x" and "1 \<le> prec"
  shows "fle (Finite 0) (round_float prec emin emax x)"
  using round_float_mono [OF assms, of emin emax] by simp

lemma round_float_upper:
  assumes "x \<le> c" and "round_float prec emin emax c = Finite c" and "1 \<le> prec"
  shows "fle (round_float prec emin emax x) (Finite c)"
  using round_float_mono [OF assms(1,3), of emin emax] assms(2) by simp


lemma round_float_overflow:
  assumes "2 powi (emax + 1) \<le> x" and "1 \<le> prec" and "emin \<le> emax"
  shows "round_float prec emin emax x = PInf"
proof -
  have rep: "round_unbounded prec emin (2 powi (emax + 1)) = 2 powi (emax + 1)"
    by (rule round_unbounded_representable [where n = 1 and k = "emax + 1"])
      (use assms(2,3) in simp_all)
  have pos: "0 < x" using assms(1) by (smt (verit) zero_less_power_int)
  from round_unbounded_mono [OF assms(1,2), of emin] rep
  have "2 powi (emax + 1) \<le> round_unbounded prec emin x" by simp
  with pos show ?thesis by (simp add: round_float_def Let_def)
qed

lemma round_float_error:
  assumes "2 powi emin \<le> \<bar>x\<bar>" and "\<bar>x\<bar> \<le> 2 powi emax" and "1 \<le> prec" and "emin \<le> emax"
  shows "\<exists>y. round_float prec emin emax x = Finite y \<and> \<bar>y - x\<bar> \<le> 2 powi (- prec) * \<bar>x\<bar> \<and>
             \<bar>y\<bar> \<le> 2 powi emax"
proof -
  have rep: "round_unbounded prec emin (2 powi emax) = 2 powi emax"
    by (rule round_unbounded_representable [where n = 1 and k = emax])
      (use assms(3,4) in simp_all)
  from assms(2) have "x \<le> 2 powi emax" "- (2 powi emax) \<le> x" by linarith+
  from round_unbounded_mono [OF this(1) assms(3), of emin] round_unbounded_mono [OF this(2) assms(3), of emin]
  have bound: "\<bar>round_unbounded prec emin x\<bar> \<le> 2 powi emax"
    by (simp add: rep round_unbounded_minus)
  also have "(2::real) powi emax < 2 powi (emax + 1)"
    by (intro power_int_strict_increasing) simp_all
  finally have "round_float prec emin emax x = Finite (round_unbounded prec emin x)"
    by (rule round_float_finite)
  with round_unbounded_error [OF assms(1), of prec] bound show ?thesis by simp
qed


subsection \<open>binary32 and binary64\<close>

lemma round_binary32_int:
  assumes "\<bar>n\<bar> < 16777216"
  shows "round_binary32 (of_int n) = Finite (of_int n)"
proof -
  have "\<bar>real_of_int n\<bar> < 16777216" using assms by linarith
  then have "\<bar>real_of_int n\<bar> < 2 powi (127 + 1)" by simp
  then show ?thesis
    unfolding round_binary32_def
    by (intro round_float_representable [where n = n and k = 0]) (use assms in simp_all)
qed

lemma round_binary32_numeral [simp]:
  "(numeral k :: int) < 16777216 \<Longrightarrow> round_binary32 (numeral k) = Finite (numeral k)"
  using round_binary32_int [of "numeral k"] by simp

lemma round_binary32_neg_numeral [simp]:
  "(numeral k :: int) < 16777216 \<Longrightarrow> round_binary32 (- numeral k) = Finite (- numeral k)"
  using round_binary32_int [of "- numeral k"] by simp

lemma round_binary32_0 [simp]: "round_binary32 0 = Finite 0"
  by (simp add: round_binary32_def)

lemma round_binary32_1 [simp]: "round_binary32 1 = Finite 1"
  using round_binary32_int [of 1] by simp

lemma round_binary32_nat:
  "n < 16777216 \<Longrightarrow> round_binary32 (real n) = Finite (real n)"
  using round_binary32_int [of "int n"] by simp

lemma round_binary32_eval:
  assumes "2 powi e \<le> \<bar>x\<bar>" and "\<bar>x\<bar> < 2 powi (e + 1)" and "- 126 \<le> e" and "e < 127"
  shows "round_binary32 x = Finite (of_int (round_half_even (x / 2 powi (e - 23))) * 2 powi (e - 23))"
proof -
  have ru: "round_unbounded 24 (- 126) x = of_int (round_half_even (x / 2 powi (e - 23))) * 2 powi (e - 23)"
    using round_unbounded_eval [OF assms(1,2), of "- 126" 24] assms(3) by simp
  have pos: "0 < \<bar>x\<bar>" using assms(1) by (smt (verit) zero_less_power_int)
  have "\<bar>round_unbounded 24 (- 126) x\<bar> \<le> 2 powi (float_exponent (- 126) x + 1)"
  proof (cases "0 < x")
    case True
    then have "0 \<le> round_unbounded 24 (- 126) x" by (intro round_unbounded_nonneg) simp
    with round_unbounded_pos_upper [OF True, of 24 "- 126"] show ?thesis by simp
  next
    case False
    with pos have neg: "0 < - x" by simp
    then have "0 \<le> round_unbounded 24 (- 126) (- x)" by (intro round_unbounded_nonneg) simp
    with round_unbounded_pos_upper [OF neg, of 24 "- 126"] show ?thesis
      by (simp add: round_unbounded_minus)
  qed
  also have "float_exponent (- 126) x = e"
    using float_exponent_eq [OF assms(1,2), of "- 126"] assms(3) by simp
  also have "(2::real) powi (e + 1) < 2 powi (127 + 1)"
    using assms(4) by (intro power_int_strict_increasing) simp_all
  finally show ?thesis
    unfolding round_binary32_def by (simp add: round_float_finite ru)
qed

lemma round_binary64_eval:
  assumes "2 powi e \<le> \<bar>x\<bar>" and "\<bar>x\<bar> < 2 powi (e + 1)" and "- 1022 \<le> e" and "e < 1023"
  shows "round_binary64 x = Finite (of_int (round_half_even (x / 2 powi (e - 52))) * 2 powi (e - 52))"
proof -
  have ru: "round_unbounded 53 (- 1022) x = of_int (round_half_even (x / 2 powi (e - 52))) * 2 powi (e - 52)"
    using round_unbounded_eval [OF assms(1,2), of "- 1022" 53] assms(3) by simp
  have pos: "0 < \<bar>x\<bar>" using assms(1) by (smt (verit) zero_less_power_int)
  have "\<bar>round_unbounded 53 (- 1022) x\<bar> \<le> 2 powi (float_exponent (- 1022) x + 1)"
  proof (cases "0 < x")
    case True
    then have "0 \<le> round_unbounded 53 (- 1022) x" by (intro round_unbounded_nonneg) simp
    with round_unbounded_pos_upper [OF True, of 53 "- 1022"] show ?thesis by simp
  next
    case False
    with pos have neg: "0 < - x" by simp
    then have "0 \<le> round_unbounded 53 (- 1022) (- x)" by (intro round_unbounded_nonneg) simp
    with round_unbounded_pos_upper [OF neg, of 53 "- 1022"] show ?thesis
      by (simp add: round_unbounded_minus)
  qed
  also have "float_exponent (- 1022) x = e"
    using float_exponent_eq [OF assms(1,2), of "- 1022"] assms(3) by simp
  also have "(2::real) powi (e + 1) < 2 powi (1023 + 1)"
    using assms(4) by (intro power_int_strict_increasing) simp_all
  finally show ?thesis
    unfolding round_binary64_def by (simp add: round_float_finite ru)
qed

subsection \<open>The operations on finite values\<close>

lemma fadd_Finite [simp]: "fadd (Finite a) (Finite b) = round_binary32 (a + b)"
  by (simp add: fadd_def)

lemma fsub_Finite [simp]: "fsub (Finite a) (Finite b) = round_binary32 (a - b)"
  by (simp add: fsub_def)

lemma fmul_Finite [simp]: "fmul (Finite a) (Finite b) = round_binary32 (a * b)"
  by (simp add: fmul_def)

lemma fdiv_Finite [simp]:
  "fdiv (Finite a) (Finite b) = (if b = 0 then signed_inf a else round_binary32 (a / b))"
  by (simp add: fdiv_def)

lemma fadd_PInf [simp]: "fadd PInf PInf = PInf" "fadd PInf (Finite b) = PInf" "fadd (Finite a) PInf = PInf"
  "fadd PInf NInf = NaN" "fadd NaN y = NaN"
  by (simp_all add: fadd_def)

lemma fadd_NaN_right [simp]: "fadd x NaN = NaN"
  by (cases x) (simp_all add: fadd_def)

lemma fsub_PInf [simp]: "fsub PInf PInf = NaN"
  by (simp add: fsub_def fadd_def)

lemma fdiv_special [simp]: "fdiv PInf (Finite b) = (if 0 \<le> b then PInf else NInf)"
  "fdiv (Finite a) PInf = Finite 0" "fdiv NaN y = NaN"
  by (simp_all add: fdiv_def)

lemma fmul_special [simp]: "fmul (Finite a) PInf = signed_inf a"
  by (simp add: fmul_def)

lemma float_of_u16_exact [simp]: "float_of_u16 w = Finite (real (unat w))"
proof -
  have "unat w < 2 ^ 16" using unsigned_less [of w, where 'a = nat] by simp
  then have "unat w < 16777216" by simp
  then show ?thesis
    unfolding float_of_u16_def by (rule round_binary32_nat)
qed

lemma float_of_u32_small: "unat w < 16777216 \<Longrightarrow> float_of_u32 w = Finite (real (unat w))"
  unfolding float_of_u32_def by (rule round_binary32_nat)

subsection \<open>The loop of LDR_init\<close>


lemma word_succ: "(i::32 word) < n \<Longrightarrow> unat (i + 1) = Suc (unat i)"
  by unat_arith

lemma fill_history_eq:
  "unat n \<le> length vals \<Longrightarrow> i \<le> n \<Longrightarrow>
   fill_history i n vals =
     take (unat i) vals @ replicate (unat n - unat i) (Finite (- 1)) @ drop (unat n) vals"
proof (induction i n vals rule: fill_history.induct)
  case (1 i n vals)
  show ?case
  proof (cases "i < n")
    case True
    then have s: "unat (i + 1) = Suc (unat i)" by (rule word_succ)
    from True have lt: "unat i < unat n" by (simp add: word_less_nat_alt)
    from True have le: "i + 1 \<le> n" by (rule inc_le)
    have len: "unat n \<le> length (vals[unat i := Finite (- 1)])" using 1(2) by simp
    have "fill_history i n vals = fill_history (i + 1) n (vals[unat i := Finite (- 1)])"
      using True by (subst fill_history.simps) simp
    also have "\<dots> = take (Suc (unat i)) (vals[unat i := Finite (- 1)]) @
        replicate (unat n - Suc (unat i)) (Finite (- 1)) @ drop (unat n) (vals[unat i := Finite (- 1)])"
      using 1(1) [OF True len le] s by simp
    also have "take (Suc (unat i)) (vals[unat i := Finite (- 1)]) = take (unat i) vals @ [Finite (- 1)]"
      using lt 1(2) by (simp add: take_Suc_conv_app_nth)
    also have "drop (unat n) (vals[unat i := Finite (- 1)]) = drop (unat n) vals"
      using lt by simp
    also have "(take (unat i) vals @ [Finite (- 1)]) @
          replicate (unat n - Suc (unat i)) (Finite (- 1)) @ drop (unat n) vals
       = take (unat i) vals @ replicate (unat n - unat i) (Finite (- 1)) @ drop (unat n) vals"
      using lt by (simp add: Suc_diff_Suc flip: replicate_Suc)
    finally show ?thesis .
  next
    case False
    with 1(3) have "i = n" by simp
    then show ?thesis using 1(2)
      by (subst fill_history.simps) simp
  qed
qed


subsection \<open>The presets\<close>

lemma preset_mult_exact: "round_binary32 (preset_mult typeDevice) = Finite (preset_mult typeDevice)"
proof (cases typeDevice)
  case GL5516
  show ?thesis unfolding GL5516 preset_mult.simps round_binary32_def
    by (rule round_float_representable [where n = 926075 and k = 5]) simp_all
next
  case GL5528
  show ?thesis unfolding GL5528 preset_mult.simps round_binary32_def
    by (rule round_float_representable [where n = 2001075 and k = 4]) simp_all
next
  case GL5537_1
  show ?thesis unfolding GL5537_1 preset_mult.simps round_binary32_def
    by (rule round_float_representable [where n = 4054475 and k = 3]) simp_all
next
  case GL5537_2
  show ?thesis unfolding GL5537_2 preset_mult.simps round_binary32_def
    by (rule round_float_representable [where n = 2801820 and k = 0]) simp_all
next
  case GL5539
  show ?thesis unfolding GL5539 preset_mult.simps round_binary32_def
    by (rule round_float_representable [where n = 13031875 and k = 4]) simp_all
next
  case GL5549
  show ?thesis unfolding GL5549 preset_mult.simps round_binary32_def
    by (rule round_float_representable [where n = 11170525 and k = 2]) simp_all
qed

lemma preset_pow_GL5528:
  "float_of_double (round_binary64 (preset_pow GL5528)) = Finite (3320211 / 2097152)"
proof -
  have "round_binary64 1.5832 = Finite (7130098930052969 / 4503599627370496)"
    by (subst round_binary64_eval [where e = 0]) (simp_all add: round_half_even_def)
  moreover have "round_binary32 (7130098930052969 / 4503599627370496) = Finite (3320211 / 2097152)"
    by (subst round_binary32_eval [where e = 0]) (simp_all add: round_half_even_def)
  ultimately show ?thesis by simp
qed


text \<open>The state after the first \<^verbatim>\<open>LDR_init\<close> of a run, for a capacity within the array.\<close>

lemma LDR_init_sized_power_on:
  assumes "unat hsize \<le> HISTORY_ARRAY_LENGTH"
  shows "LDR_init_sized hsize typeDevice power_on =
     \<lparr> mult_value = Finite (preset_mult typeDevice),
       pow_value = float_of_double (round_binary64 (preset_pow typeDevice)),
       photocell_on_ground = False, smoothing_sum = Finite 0, smoothing_history_size = hsize,
       smoothing_history_next = 0,
       smoothing_history_values =
         replicate (unat hsize) (Finite (- 1)) @ replicate (HISTORY_ARRAY_LENGTH - unat hsize) (Finite 0) \<rparr>"
proof -
  have "\<not> (word_of_nat HISTORY_ARRAY_LENGTH :: 32 word) < hsize"
    using assms by (simp add: HISTORY_ARRAY_LENGTH_def word_less_nat_alt)
  then show ?thesis
    using assms by (simp add: LDR_init_sized_def power_on_def Let_def fill_history_eq preset_mult_exact)
qed

lemma fresh_capacity_3:
  "LDR_init_sized 3 typeDevice power_on =
     \<lparr> mult_value = Finite (preset_mult typeDevice),
       pow_value = float_of_double (round_binary64 (preset_pow typeDevice)),
       photocell_on_ground = False, smoothing_sum = Finite 0, smoothing_history_size = 3,
       smoothing_history_next = 0,
       smoothing_history_values =
         [Finite (- 1), Finite (- 1), Finite (- 1)] @ replicate 97 (Finite 0) \<rparr>"
proof -
  have "unat (3 :: 32 word) \<le> HISTORY_ARRAY_LENGTH"
    by (simp add: HISTORY_ARRAY_LENGTH_def)
  then show ?thesis
    by (simp add: LDR_init_sized_power_on) (simp add: HISTORY_ARRAY_LENGTH_def numeral_3_eq_3)
qed

lemma unfilled_threshold: "round_binary32 (- 0.1) = Finite (- 13421773 / 134217728)"
  by (subst round_binary32_eval [where e = "- 4"]) (simp_all add: round_half_even_def)

lemma is_unfilled_Finite [simp]: "is_unfilled (Finite a) = (a < - 13421773 / 134217728)"
  by (simp add: is_unfilled_def unfilled_threshold)

lemma is_unfilled_special [simp]: "\<not> is_unfilled PInf" "\<not> is_unfilled NaN"
  by (simp_all add: is_unfilled_def)

subsection \<open>Smoothing with capacity 3\<close>

text \<open>
  Claim C2. After the first initialization with capacity 3, four smoothing steps whose
  instantaneous lux values are 10, 20, 30 and 40 return 10, 15, 20 and 30: the first
  three divide the running sum by the number of values written so far (1, 2, then the
  capacity 3), the fourth replaces the oldest value 10 by 40 and divides 90 by 3.
  Every intermediate value is a float, so no operation rounds.
\<close>

theorem smoothing_capacity_3_averages:
  "map_option fst (smoothing_updates (LDR_init_sized 3 typeDevice power_on)
      [Finite 10, Finite 20, Finite 30, Finite 40])
   = Some [Finite 10, Finite 15, Finite 20, Finite 30]"
  by (simp add: fresh_capacity_3 smoothing_update_def float_of_u32_small Let_def)

subsection \<open>Smoothing disabled\<close>

lemma smoothing_update_disabled:
  "smoothing_history_size st = 0 \<Longrightarrow> smoothing_update st lux = Some (lux, st)"
  by (simp add: smoothing_update_def)

lemma LDR_getSmoothedLux_disabled:
  "smoothing_history_size st = 0 \<Longrightarrow>
   LDR_getSmoothedLux st raw = map_option (\<lambda>lux. (lux, st)) (LDR_getCurrentLux st raw)"
  by (simp add: LDR_getSmoothedLux_def smoothing_update_disabled split: option.splits)

lemma LDR_getSmoothedLux_calls_disabled:
  "smoothing_history_size st = 0 \<Longrightarrow>
   LDR_getSmoothedLux_calls st raws =
     map_option (\<lambda>vs. (vs, st)) (those (map (LDR_getCurrentLux st) raws))"
  by (induction raws) (auto simp: LDR_getSmoothedLux_disabled split: option.splits)

text \<open>
  Claim C5. With a history capacity of 0, a call of \<^verbatim>\<open>LDR_getSmoothedLux\<close> returns the value
  of \<^verbatim>\<open>LDR_getCurrentLux\<close> for the same raw code and leaves the state as it was; a
  sequence of calls returns the instantaneous values in order, again with the state unchanged.
  (Where the instantaneous conversion is undefined, so is the smoothed call.)
\<close>

theorem smoothing_disabled_is_instantaneous:
  assumes "smoothing_history_size st = 0"
  shows "LDR_getSmoothedLux st raw = map_option (\<lambda>lux. (lux, st)) (LDR_getCurrentLux st raw) \<and>
         LDR_getSmoothedLux_calls st raws =
           map_option (\<lambda>vs. (vs, st)) (those (map (LDR_getCurrentLux st) raws))"
  using assms by (simp add: LDR_getSmoothedLux_disabled LDR_getSmoothedLux_calls_disabled)

theorem smoothing_disabled_is_instantaneous_witness:
  "smoothing_history_size power_on = 0 \<and>
   LDR_getSmoothedLux power_on 2048 =
     map_option (\<lambda>lux. (lux, power_on)) (LDR_getCurrentLux power_on 2048) \<and>
   LDR_getSmoothedLux_calls power_on [2048, 1024, 4095] =
     map_option (\<lambda>vs. (vs, power_on)) (those (map (LDR_getCurrentLux power_on) [2048, 1024, 4095]))"
proof -
  have size0: "smoothing_history_size power_on = 0"
    by (simp add: power_on_def)
  from smoothing_disabled_is_instantaneous [OF size0, of 2048 "[2048, 1024, 4095]"] size0
  show ?thesis by blast
qed

subsection \<open>The orientation flag\<close>

text \<open>
  Claim C9. \<^verbatim>\<open>LDR_init\<close> sets the orientation flag to false for every device preset and
  every earlier state; in particular an orientation set by
  \<^verbatim>\<open>LDR_setPhotocellPositionOnGround(true)\<close> is lost at the next initialization.
\<close>

theorem LDR_init_clears_on_ground:
  "photocell_on_ground (LDR_init typeDevice st) = False \<and>
   photocell_on_ground (LDR_init typeDevice (LDR_setPhotocellPositionOnGround True st)) = False"
  by (simp add: LDR_init_def LDR_init_sized_def Let_def)


subsection \<open>Bounds on rounded values\<close>

lemma round_binary32_minus_1 [simp]: "round_binary32 (- 1) = Finite (- 1)"
  using round_binary32_int [of "- 1"] by simp

lemma round_float_Finite_cases:
  "round_float prec emin emax x = Finite y \<Longrightarrow> y = round_unbounded prec emin x"
  by (simp add: round_float_def Let_def split: if_splits)

lemma round_binary32_between:
  assumes "c1 \<le> x" and "x \<le> c2"
    and "round_binary32 c1 = Finite c1" and "round_binary32 c2 = Finite c2"
  shows "round_binary32 x = Finite (round_unbounded 24 (- 126) x) \<and>
         c1 \<le> round_unbounded 24 (- 126) x \<and> round_unbounded 24 (- 126) x \<le> c2"
proof -
  have lo: "fle (Finite c1) (round_binary32 x)"
    using round_float_mono [OF assms(1), of 24 "- 126" 127] assms(3) by (simp add: round_binary32_def)
  have hi: "fle (round_binary32 x) (Finite c2)"
    using round_float_mono [OF assms(2), of 24 "- 126" 127] assms(4) by (simp add: round_binary32_def)
  from lo hi obtain y where y: "round_binary32 x = Finite y"
    by (cases "round_binary32 x") simp_all
  then have "y = round_unbounded 24 (- 126) x"
    unfolding round_binary32_def by (rule round_float_Finite_cases)
  with y lo hi show ?thesis by simp
qed

lemma round_binary64_between:
  assumes "c1 \<le> x" and "x \<le> c2"
    and "round_binary64 c1 = Finite c1" and "round_binary64 c2 = Finite c2"
  shows "round_binary64 x = Finite (round_unbounded 53 (- 1022) x) \<and>
         c1 \<le> round_unbounded 53 (- 1022) x \<and> round_unbounded 53 (- 1022) x \<le> c2"
proof -
  have lo: "fle (Finite c1) (round_binary64 x)"
    using round_float_mono [OF assms(1), of 53 "- 1022" 1023] assms(3) by (simp add: round_binary64_def)
  have hi: "fle (round_binary64 x) (Finite c2)"
    using round_float_mono [OF assms(2), of 53 "- 1022" 1023] assms(4) by (simp add: round_binary64_def)
  from lo hi obtain y where y: "round_binary64 x = Finite y"
    by (cases "round_binary64 x") simp_all
  then have "y = round_unbounded 53 (- 1022) x"
    unfolding round_binary64_def by (rule round_float_Finite_cases)
  with y lo hi show ?thesis by simp
qed

lemma round_binary64_int:
  assumes "\<bar>n\<bar> < 9007199254740992"
  shows "round_binary64 (of_int n) = Finite (of_int n)"
proof -
  have "\<bar>real_of_int n\<bar> < 9007199254740992" using assms by linarith
  then have "\<bar>real_of_int n\<bar> < 2 powi (1023 + 1)" by simp
  then show ?thesis
    unfolding round_binary64_def
    by (intro round_float_representable [where n = n and k = 0]) (use assms in simp_all)
qed

subsection \<open>From the raw code to the resistance and the lux value\<close>

lemma full_scale_eq: "full_scale = 4096"
  by (simp add: full_scale_def ADC_RESOLUTION_BITS_def)

lemma guarded_raw_4096: "guarded_raw 4096 = 4095"
  by (simp add: guarded_raw_def full_scale_eq)

lemma guarded_raw_4095: "guarded_raw 4095 = 4095"
  by (simp add: guarded_raw_def full_scale_eq)

lemma divider_ratio_full_scale: "divider_ratio 4096 = Finite (2049 / 8388608)"
proof -
  have "round_binary32 (4096 / 4095) = Finite (8390657 / 8388608)"
    by (subst round_binary32_eval [where e = 0]) (simp_all add: round_half_even_def)
  moreover have "round_binary32 (8390657 / 8388608 - 1) = Finite (2049 / 8388608)"
    by (subst round_binary32_eval [where e = "- 12"]) (simp_all add: round_half_even_def)
  ultimately show ?thesis
    by (simp add: divider_ratio_def guarded_raw_4096 full_scale_eq)
qed

lemma divider_ratio_same: "divider_ratio 4096 = divider_ratio 4095"
  by (simp add: divider_ratio_def guarded_raw_4096 guarded_raw_4095)

lemma divider_resistance_full_scale:
  "divider_resistance st 4096 =
     (if photocell_on_ground st then Finite 13510203 else Finite (1690425 / 2097152))"
proof -
  have "round_binary32 (3300 / (2049 / 8388608)) = Finite 13510203"
    by (subst round_binary32_eval [where e = 23]) (simp_all add: round_half_even_def)
  moreover have "round_binary32 (3300 * (2049 / 8388608)) = Finite (1690425 / 2097152)"
    by (subst round_binary32_eval [where e = "- 1"]) (simp_all add: round_half_even_def)
  ultimately show ?thesis
    by (simp add: divider_resistance_def divider_ratio_full_scale OTHER_RESISTOR_def)
qed

lemma photocell_resistor_full_scale:
  "photocell_resistor st 4096 = Some (if photocell_on_ground st then 13510203 else 0)"
  by (simp add: photocell_resistor_def divider_resistance_full_scale)

text \<open>
  Claim C4. The full-scale code \<open>2 ^ 12 = 4096\<close> is decremented before the ratio is computed:
  the divisor is 4095, the ratio is the finite non-zero float 2049 / 2^23 (so neither the ratio
  nor, in the grounded orientation, the resistance divides by zero), the resistance is defined,
  and both the resistance and the returned lux value are those of the raw code 4095, for every
  state.
\<close>

theorem full_scale_same_as_below:
  "unat (4096 :: 16 word) = full_scale \<and>
   float_of_u16 (guarded_raw 4096) = Finite 4095 \<and>
   divider_ratio 4096 = Finite (2049 / 8388608) \<and>
   photocell_resistor st 4096 = Some (if photocell_on_ground st then 13510203 else 0) \<and>
   photocell_resistor st 4096 = photocell_resistor st 4095 \<and>
   LDR_rawAnalogValueToLux st 4096 = LDR_rawAnalogValueToLux st 4095"
proof -
  have "photocell_resistor st 4096 = photocell_resistor st 4095"
    by (simp add: photocell_resistor_def divider_resistance_def divider_ratio_same)
  then show ?thesis
    by (simp add: full_scale_eq guarded_raw_4096 divider_ratio_full_scale
        photocell_resistor_full_scale LDR_rawAnalogValueToLux_def)
qed

lemma guarded_raw_nonzero: "raw \<noteq> 0 \<Longrightarrow> guarded_raw raw \<noteq> 0"
  by (auto simp: guarded_raw_def full_scale_eq)

lemma unat16_bounds:
  assumes "(w :: 16 word) \<noteq> 0"
  shows "1 \<le> real (unat w) \<and> real (unat w) \<le> 65535"
proof -
  from assms have "unat w \<noteq> 0" by (simp add: unat_eq_zero)
  moreover have "unat w < 2 ^ 16" using unsigned_less [of w, where 'a = nat] by simp
  ultimately have "1 \<le> unat w \<and> unat w \<le> 65535" by simp
  then show ?thesis by (simp del: of_nat_unat)
qed

lemma divider_ratio_finite:
  assumes "raw \<noteq> 0"
  shows "divider_ratio raw =
      Finite (round_unbounded 24 (- 126)
        (round_unbounded 24 (- 126) (real full_scale / real (unat (guarded_raw raw))) - 1))"
proof -
  let ?g = "real (unat (guarded_raw raw))"
  let ?q = "round_unbounded 24 (- 126) (4096 / ?g)"
  from unat16_bounds [OF guarded_raw_nonzero [OF assms]] have g: "1 \<le> ?g" "?g \<le> 65535"
    by simp_all
  then have "0 \<le> 4096 / ?g" "4096 / ?g \<le> 4096"
    by (simp_all add: divide_le_eq)
  from round_binary32_between [OF this] have q: "round_binary32 (4096 / ?g) = Finite ?q"
    and qb: "0 \<le> ?q" "?q \<le> 4096"
    by simp_all
  from qb have "- 1 \<le> ?q - 1" "?q - 1 \<le> 4095" by simp_all
  from round_binary32_between [OF this]
  have "round_binary32 (?q - 1) = Finite (round_unbounded 24 (- 126) (?q - 1))"
    by simp
  with q g show ?thesis
    by (simp add: divider_ratio_def full_scale_eq del: of_nat_unat)
qed

lemma divider_ratio_zero: "divider_ratio 0 = PInf"
  by (simp add: divider_ratio_def guarded_raw_def fsub_def fadd_def full_scale_eq signed_inf_def)

text \<open>
  Claim C8. The conversion has no check for a raw code of 0. For a raw code of 1 or more the
  divisor of the ratio (the guarded raw code, as a float) is not zero and the ratio is a
  finite float, the rounded \<open>4096 / raw\<close> minus 1, rounded. For the raw code 0 the divisor is
  zero, the ratio is +infinity by IEEE division, and the value flows on: the divider resistance
  is 0 (grounded) or +infinity (not grounded). Grounded, the function returns the float
  \<open>mult / pow(0, pow_value)\<close>; not grounded, it converts +infinity to
  \<^verbatim>\<open>unsigned long\<close>, which C leaves undefined. No path returns an error.
\<close>

theorem zero_raw_not_validated:
  "(raw \<noteq> 0 \<longrightarrow>
      float_of_u16 (guarded_raw raw) \<noteq> Finite 0 \<and>
      is_finite (divider_ratio raw) \<and>
      divider_ratio raw =
        Finite (round_unbounded 24 (- 126)
          (round_unbounded 24 (- 126) (real full_scale / real (unat (guarded_raw raw))) - 1))) \<and>
   float_of_u16 (guarded_raw 0) = Finite 0 \<and>
   divider_ratio 0 = PInf \<and>
   divider_resistance st 0 = (if photocell_on_ground st then Finite 0 else PInf) \<and>
   LDR_rawAnalogValueToLux st 0 =
     (if photocell_on_ground st
      then Some (fdiv (mult_value st) (float_of_double (cpow 0 (pow_value st)))) else None)"
proof -
  have a: "raw \<noteq> 0 \<longrightarrow> float_of_u16 (guarded_raw raw) \<noteq> Finite 0"
    using unat16_bounds [OF guarded_raw_nonzero, of raw] by (auto simp del: of_nat_unat)
  have b: "raw \<noteq> 0 \<longrightarrow> divider_ratio raw =
        Finite (round_unbounded 24 (- 126)
          (round_unbounded 24 (- 126) (real full_scale / real (unat (guarded_raw raw))) - 1))"
    using divider_ratio_finite by blast
  then have b': "raw \<noteq> 0 \<longrightarrow> is_finite (divider_ratio raw)"
    by auto
  have c: "float_of_u16 (guarded_raw 0) = Finite 0"
    by (simp add: guarded_raw_def full_scale_eq)
  have d: "divider_resistance st 0 = (if photocell_on_ground st then Finite 0 else PInf)"
    by (simp add: divider_resistance_def divider_ratio_zero OTHER_RESISTOR_def signed_inf_def)
  have e: "LDR_rawAnalogValueToLux st 0 =
     (if photocell_on_ground st
      then Some (fdiv (mult_value st) (float_of_double (cpow 0 (pow_value st)))) else None)"
    by (simp add: LDR_rawAnalogValueToLux_def photocell_resistor_def d resistor_to_lux_def)
  from a b b' c d e divider_ratio_zero show ?thesis by blast
qed

theorem zero_raw_not_validated_witness:
  "(2048 :: 16 word) \<noteq> 0 \<and>
   float_of_u16 (guarded_raw 2048) \<noteq> Finite 0 \<and>
   is_finite (divider_ratio 2048) \<and>
   divider_ratio 2048 = Finite 1 \<and>
   divider_ratio 0 = PInf"
proof -
  have ratio: "divider_ratio 2048 = Finite 1"
    by (simp add: divider_ratio_def guarded_raw_def full_scale_eq)
  from zero_raw_not_validated [of 2048 power_on] ratio show ?thesis
    by simp
qed

lemma LDR_init_calibration:
  "photocell_on_ground (LDR_init typeDevice st) = False \<and>
   mult_value (LDR_init typeDevice st) = Finite (preset_mult typeDevice) \<and>
   pow_value (LDR_init typeDevice st) = float_of_double (round_binary64 (preset_pow typeDevice))"
  by (simp add: LDR_init_def LDR_init_sized_def Let_def preset_mult_exact)

lemma guarded_raw_range:
  assumes "unat raw \<le> full_scale" and "raw \<noteq> 0"
  shows "0 < unat (guarded_raw raw) \<and> unat (guarded_raw raw) < 4096"
proof (cases "unat raw = 4096")
  case True
  moreover have "raw = word_of_nat (unat raw)" by simp
  ultimately have "raw = 4096" by simp
  then show ?thesis by (simp add: guarded_raw_4096)
next
  case False
  moreover from assms(2) have "unat raw \<noteq> 0" by (simp add: unat_eq_zero)
  ultimately show ?thesis using assms(1) by (simp add: guarded_raw_def full_scale_eq)
qed

lemma divider_ratio_nonneg:
  assumes "unat raw \<le> full_scale" and "raw \<noteq> 0"
  shows "\<exists>t. divider_ratio raw = Finite t \<and> 0 \<le> t"
proof -
  let ?g = "real (unat (guarded_raw raw))"
  let ?q = "round_unbounded 24 (- 126) (4096 / ?g)"
  from guarded_raw_range [OF assms] have "1 \<le> unat (guarded_raw raw)" "unat (guarded_raw raw) < 4096"
    by simp_all
  then have g: "1 \<le> ?g" "?g < 4096"
    by (simp_all del: of_nat_unat)
  then have "1 \<le> 4096 / ?g" "4096 / ?g \<le> 4096"
    by (simp_all add: divide_le_eq del: of_nat_unat)
  from round_binary32_between [OF this] have q: "round_binary32 (4096 / ?g) = Finite ?q"
    and qb: "1 \<le> ?q" "?q \<le> 4096"
    by simp_all
  from qb have "0 \<le> ?q - 1" "?q - 1 \<le> 4095" by simp_all
  from round_binary32_between [OF this]
  have "round_binary32 (?q - 1) = Finite (round_unbounded 24 (- 126) (?q - 1))"
    and "0 \<le> round_unbounded 24 (- 126) (?q - 1)"
    by simp_all
  with q g show ?thesis
    by (simp add: divider_ratio_def full_scale_eq del: of_nat_unat)
qed

lemma divider_resistance_in_range:
  assumes "\<not> photocell_on_ground st" and "unat raw \<le> full_scale"
    and "fless (divider_resistance st raw) (Finite 1)"
  shows "\<exists>r. divider_resistance st raw = Finite r \<and> 0 \<le> r \<and> r < 1"
proof (cases "raw = 0")
  case True
  with assms(1,3) show ?thesis
    by (simp add: divider_resistance_def divider_ratio_zero OTHER_RESISTOR_def signed_inf_def)
next
  case False
  from divider_ratio_nonneg [OF assms(2) False] obtain t where
    t: "divider_ratio raw = Finite t" "0 \<le> t" by blast
  then have "0 \<le> 3300 * t" by simp
  from round_float_nonneg [OF this, of 24 "- 126" 127]
  have nonneg: "fle (Finite 0) (round_binary32 (3300 * t))"
    by (simp add: round_binary32_def)
  have eq: "divider_resistance st raw = round_binary32 (3300 * t)"
    using assms(1) t by (simp add: divider_resistance_def OTHER_RESISTOR_def)
  from assms(3) nonneg show ?thesis
    unfolding eq by (cases "round_binary32 (3300 * t)") simp_all
qed

lemma fdiv_zero_not_finite: "\<not> is_finite (fdiv x (Finite 0))"
  by (cases x) (simp_all add: signed_inf_def fdiv_def)

lemma float_to_ulong_floor:
  "0 \<le> r \<Longrightarrow> r < 2 ^ 32 \<Longrightarrow> float_to_ulong (Finite r) = Some (nat \<lfloor>r\<rfloor>)"
  by simp

text \<open>
  Claim C10, as amended. The resistance of the divider, a float, is converted to
  \<^verbatim>\<open>unsigned long\<close> before the power law is applied: where the float \<open>r\<close> lies between -1
  and \<open>2^32\<close> (outside, the conversion is undefined) the resistance used is \<open>r\<close> without
  its fraction, 0 for a negative \<open>r\<close>, and the result is \<open>mult / pow\<close> of that whole number.
  In particular, not grounded, for a raw code of at most the full-scale code whose divider
  resistance is below 1 ohm, and with a finite exponent above 0, the resistance used is 0 and
  the result is the multiplier divided by zero, which is not a finite value.
\<close>

theorem sub_ohm_resistance_truncates_to_zero:
  "(divider_resistance st raw = Finite r \<and> - 1 < r \<and> r < 2 ^ 32 \<longrightarrow>
      photocell_resistor st raw = Some (if r < 0 then 0 else nat \<lfloor>r\<rfloor>) \<and>
      LDR_rawAnalogValueToLux st raw =
        Some (fdiv (mult_value st)
          (float_of_double (cpow (if r < 0 then 0 else nat \<lfloor>r\<rfloor>) (pow_value st))))) \<and>
   (\<not> photocell_on_ground st \<and> unat raw \<le> full_scale \<and>
    fless (divider_resistance st raw) (Finite 1) \<and> pow_value st = Finite p \<and> 0 < p \<longrightarrow>
      photocell_resistor st raw = Some 0 \<and>
      LDR_rawAnalogValueToLux st raw = Some (fdiv (mult_value st) (Finite 0)) \<and>
      \<not> is_finite (fdiv (mult_value st) (Finite 0)))"
proof (intro conjI impI)
  assume a: "divider_resistance st raw = Finite r \<and> - 1 < r \<and> r < 2 ^ 32"
  then show res: "photocell_resistor st raw = Some (if r < 0 then 0 else nat \<lfloor>r\<rfloor>)"
    by (simp add: photocell_resistor_def)
  then show "LDR_rawAnalogValueToLux st raw =
        Some (fdiv (mult_value st)
          (float_of_double (cpow (if r < 0 then 0 else nat \<lfloor>r\<rfloor>) (pow_value st))))"
    by (simp add: LDR_rawAnalogValueToLux_def resistor_to_lux_def)
next
  assume a: "\<not> photocell_on_ground st \<and> unat raw \<le> full_scale \<and>
    fless (divider_resistance st raw) (Finite 1) \<and> pow_value st = Finite p \<and> 0 < p"
  then obtain r where r: "divider_resistance st raw = Finite r" "0 \<le> r" "r < 1"
    using divider_resistance_in_range [of st raw] by blast
  then have "\<lfloor>r\<rfloor> = 0" by linarith
  with r show res: "photocell_resistor st raw = Some 0"
    by (simp add: photocell_resistor_def)
  with a show "LDR_rawAnalogValueToLux st raw = Some (fdiv (mult_value st) (Finite 0))"
    by (simp add: LDR_rawAnalogValueToLux_def resistor_to_lux_def)
  show "\<not> is_finite (fdiv (mult_value st) (Finite 0))"
    by (rule fdiv_zero_not_finite)
qed


lemma divider_resistance_4095:
  "divider_resistance st 4095 =
     (if photocell_on_ground st then Finite 13510203 else Finite (1690425 / 2097152))"
proof -
  have "divider_resistance st 4095 = divider_resistance st 4096"
    by (simp add: divider_resistance_def divider_ratio_same)
  then show ?thesis by (simp only: divider_resistance_full_scale)
qed

lemma divider_resistance_4098:
  "\<not> photocell_on_ground st \<Longrightarrow> divider_resistance st 4098 = Finite (- 1688775 / 1048576)"
proof -
  assume ng: "\<not> photocell_on_ground st"
  have "round_binary32 (4096 / 4098) = Finite (4192257 / 4194304)"
    by (subst round_binary32_eval [where e = "- 1"]) (simp_all add: round_half_even_def)
  moreover have "round_binary32 (4192257 / 4194304 - 1) = Finite (- 2047 / 4194304)"
    by (subst round_binary32_eval [where e = "- 12"]) (simp_all add: round_half_even_def)
  moreover have "round_binary32 (3300 * (- 2047 / 4194304)) = Finite (- 1688775 / 1048576)"
    by (subst round_binary32_eval [where e = 0]) (simp_all add: round_half_even_def)
  ultimately show ?thesis
    using ng by (simp add: divider_resistance_def divider_ratio_def guarded_raw_def full_scale_eq
        OTHER_RESISTOR_def)
qed

lemma divider_resistance_1000:
  "\<not> photocell_on_ground st \<Longrightarrow> divider_resistance st 1000 = Finite (2615501 / 256)"
proof -
  assume ng: "\<not> photocell_on_ground st"
  have "round_binary32 (4096 / 1000) = Finite (8589935 / 2097152)"
    by (subst round_binary32_eval [where e = 2]) (simp_all add: round_half_even_def)
  moreover have "round_binary32 (8589935 / 2097152 - 1) = Finite (6492783 / 2097152)"
    by (subst round_binary32_eval [where e = 1]) (simp_all add: round_half_even_def)
  moreover have "round_binary32 (3300 * (6492783 / 2097152)) = Finite (2615501 / 256)"
    by (subst round_binary32_eval [where e = 13]) (simp_all add: round_half_even_def)
  ultimately show ?thesis
    using ng by (simp add: divider_resistance_def divider_ratio_def guarded_raw_def full_scale_eq
        OTHER_RESISTOR_def)
qed

text \<open>
  Claim C10 as stated fails. A resistance below 1 ohm does not always give the multiplier
  divided by zero: with the exponent 0, \<^verbatim>\<open>pow(0, 0)\<close> is 1 and the raw code 4095 returns the
  multiplier itself (here 5); in the state at program start, before any \<^verbatim>\<open>LDR_init\<close>, the
  same raw code returns 0. And the resistance is not always truncated to a non-negative
  integer: the raw code 4098 gives the float resistance -1.61, whose conversion to
  \<^verbatim>\<open>unsigned long\<close> is undefined.
\<close>

theorem sub_ohm_claim_counterexample:
  "\<not> photocell_on_ground (LDR_updatePhotocellParameters (Finite 5) (Finite 0) (LDR_init GL5528 power_on)) \<and>
   divider_resistance (LDR_updatePhotocellParameters (Finite 5) (Finite 0) (LDR_init GL5528 power_on)) 4095
     = Finite (1690425 / 2097152) \<and>
   photocell_resistor (LDR_updatePhotocellParameters (Finite 5) (Finite 0) (LDR_init GL5528 power_on)) 4095
     = Some 0 \<and>
   LDR_rawAnalogValueToLux (LDR_updatePhotocellParameters (Finite 5) (Finite 0) (LDR_init GL5528 power_on)) 4095
     = Some (Finite 5) \<and>
   LDR_rawAnalogValueToLux power_on 4095 = Some (Finite 0) \<and>
   divider_resistance (LDR_init GL5528 power_on) 4098 = Finite (- 1688775 / 1048576) \<and>
   photocell_resistor (LDR_init GL5528 power_on) 4098 = None"
proof -
  let ?st = "LDR_updatePhotocellParameters (Finite 5) (Finite 0) (LDR_init GL5528 power_on)"
  have g: "\<not> photocell_on_ground ?st"
    by (simp add: LDR_updatePhotocellParameters_def LDR_init_calibration)
  have d: "divider_resistance ?st 4095 = Finite (1690425 / 2097152)"
    using g by (simp add: divider_resistance_4095)
  have r: "photocell_resistor ?st 4095 = Some 0"
    by (simp add: photocell_resistor_def d)
  have v: "LDR_rawAnalogValueToLux ?st 4095 = Some (Finite 5)"
    by (simp add: LDR_rawAnalogValueToLux_def r)
      (simp add: resistor_to_lux_def LDR_updatePhotocellParameters_def)
  have p: "LDR_rawAnalogValueToLux power_on 4095 = Some (Finite 0)"
    by (simp add: LDR_rawAnalogValueToLux_def photocell_resistor_def divider_resistance_4095
        resistor_to_lux_def power_on_def)
  have ng: "\<not> photocell_on_ground (LDR_init GL5528 power_on)"
    by (simp add: LDR_init_calibration)
  have d2: "divider_resistance (LDR_init GL5528 power_on) 4098 = Finite (- 1688775 / 1048576)"
    using ng by (rule divider_resistance_4098)
  have r2: "photocell_resistor (LDR_init GL5528 power_on) 4098 = None"
    by (simp add: photocell_resistor_def d2)
  from g d r v p d2 r2 show ?thesis by blast
qed

theorem sub_ohm_resistance_truncates_to_zero_witness:
  "\<not> photocell_on_ground (LDR_init GL5528 power_on) \<and>
   unat (4095 :: 16 word) \<le> full_scale \<and>
   divider_resistance (LDR_init GL5528 power_on) 4095 = Finite (1690425 / 2097152) \<and>
   pow_value (LDR_init GL5528 power_on) = Finite (3320211 / 2097152) \<and>
   photocell_resistor (LDR_init GL5528 power_on) 4095 = Some 0 \<and>
   LDR_rawAnalogValueToLux (LDR_init GL5528 power_on) 4095 = Some PInf \<and>
   divider_resistance (LDR_init GL5528 power_on) 1000 = Finite (2615501 / 256) \<and>
   photocell_resistor (LDR_init GL5528 power_on) 1000 = Some 10216"
proof -
  let ?st = "LDR_init GL5528 power_on"
  have g: "\<not> photocell_on_ground ?st" by (simp add: LDR_init_calibration)
  have u: "unat (4095 :: 16 word) \<le> full_scale" by (simp add: full_scale_eq)
  have d: "divider_resistance ?st 4095 = Finite (1690425 / 2097152)"
    using g by (simp add: divider_resistance_4095)
  then have l: "fless (divider_resistance ?st 4095) (Finite 1)" by simp
  have p: "pow_value ?st = Finite (3320211 / 2097152)"
    by (simp only: LDR_init_calibration preset_pow_GL5528)
  have pp: "(0 :: real) < 3320211 / 2097152" by simp
  have m: "fdiv (mult_value ?st) (Finite 0) = PInf"
    by (simp add: LDR_init_calibration signed_inf_def)
  from sub_ohm_resistance_truncates_to_zero [of ?st 4095 "1690425 / 2097152" "3320211 / 2097152"] g u l p pp
  have r: "photocell_resistor ?st 4095 = Some 0"
    and v: "LDR_rawAnalogValueToLux ?st 4095 = Some (fdiv (mult_value ?st) (Finite 0))"
    by blast+
  from v m have v': "LDR_rawAnalogValueToLux ?st 4095 = Some PInf"
    by simp
  have d2: "divider_resistance ?st 1000 = Finite (2615501 / 256)"
    using g by (rule divider_resistance_1000)
  have fl: "nat \<lfloor>2615501 / 256 :: real\<rfloor> = 10216" by simp
  have "(- 1::real) < 2615501 / 256" "(2615501 / 256 :: real) < 2 ^ 32" by simp_all
  with sub_ohm_resistance_truncates_to_zero [of ?st 1000 "2615501 / 256" "3320211 / 2097152"] d2
  have "photocell_resistor ?st 1000 =
      Some (if (2615501 / 256 :: real) < 0 then 0 else nat \<lfloor>2615501 / 256 :: real\<rfloor>)"
    by blast
  with fl have r2: "photocell_resistor ?st 1000 = Some 10216" by simp
  from g u d p r v' d2 r2 show ?thesis by blast
qed

subsection \<open>Rounded values are fixed by rounding\<close>

lemma round_unbounded_idem:
  assumes "1 \<le> prec"
  shows "round_unbounded prec emin (round_unbounded prec emin x) = round_unbounded prec emin x"
proof (cases "x = 0")
  case True
  then show ?thesis by simp
next
  case False
  define n where "n = round_half_even (x / float_ulp prec emin x)"
  define k where "k = float_exponent emin x - prec + 1"
  have ru: "round_unbounded prec emin x = of_int n * 2 powi k"
    using False by (simp add: round_unbounded_def n_def k_def float_ulp_def)
  have k: "emin - prec + 1 \<le> k"
    by (simp add: k_def float_exponent_def)
  have "\<bar>x\<bar> < 2 powi (float_exponent emin x + 1)"
    using False by (rule float_exponent_upper)
  then have "\<bar>x\<bar> < float_ulp prec emin x * 2 powi prec" by (simp add: ulp_times)
  then have "\<bar>x / float_ulp prec emin x\<bar> \<le> 2 powi prec"
    by (simp add: pos_divide_le_eq mult.commute)
  then have b: "\<bar>x / float_ulp prec emin x\<bar> \<le> of_int (2 ^ nat prec)"
    using assms by (simp add: two_powi_nat)
  from b have "x / float_ulp prec emin x \<le> of_int (2 ^ nat prec)"
    by linarith
  moreover from b have "- of_int (2 ^ nat prec) \<le> x / float_ulp prec emin x"
    by linarith
  then have "of_int (- (2 ^ nat prec)) \<le> x / float_ulp prec emin x"
    by (simp only: of_int_minus)
  ultimately have "n \<le> 2 ^ nat prec" "- (2 ^ nat prec) \<le> n"
    using round_half_even_mono [of "x / float_ulp prec emin x" "of_int (2 ^ nat prec)"]
      round_half_even_mono [of "of_int (- (2 ^ nat prec))" "x / float_ulp prec emin x"]
    unfolding n_def round_half_even_of_int by simp_all
  then consider "\<bar>n\<bar> < 2 ^ nat prec" | "n = 2 ^ nat prec" | "n = - (2 ^ nat prec)"
    by linarith
  then show ?thesis
  proof cases
    case 1
    show ?thesis
      unfolding ru by (rule round_unbounded_representable [OF refl 1 k]) (use assms in simp)
  next
    case 2
    have "real_of_int n = 2 powi prec"
      using assms by (simp add: 2 power_int_def)
    then have "of_int n * 2 powi k = of_int 1 * (2::real) powi (k + prec)"
      by (simp add: power_int_add)
    moreover have "round_unbounded prec emin (of_int 1 * 2 powi (k + prec)) = of_int 1 * 2 powi (k + prec)"
      by (rule round_unbounded_representable [OF refl]) (use k assms in simp_all)
    ultimately show ?thesis unfolding ru by simp
  next
    case 3
    have "real_of_int n = - (2 powi prec)"
      using assms by (simp add: 3 power_int_def)
    then have "of_int n * 2 powi k = of_int (- 1) * (2::real) powi (k + prec)"
      by (simp add: power_int_add)
    moreover have "round_unbounded prec emin (of_int (- 1) * 2 powi (k + prec)) = of_int (- 1) * 2 powi (k + prec)"
      by (rule round_unbounded_representable [OF refl]) (use k assms in simp_all)
    ultimately show ?thesis unfolding ru by simp
  qed
qed

lemma round_float_idem:
  assumes "round_float prec emin emax x = Finite y" and "1 \<le> prec"
  shows "round_float prec emin emax y = Finite y"
proof -
  from assms(1) have y: "y = round_unbounded prec emin x" and fin: "\<bar>round_unbounded prec emin x\<bar> < 2 powi (emax + 1)"
    by (simp_all add: round_float_def Let_def split: if_splits)
  have "round_unbounded prec emin y = y"
    unfolding y using assms(2) by (rule round_unbounded_idem)
  with fin y show ?thesis by (simp add: round_float_def Let_def)
qed

lemma round_binary32_idem: "round_binary32 x = Finite y \<Longrightarrow> round_binary32 y = Finite y"
  unfolding round_binary32_def by (rule round_float_idem) simp_all

subsection \<open>Bounds on powers\<close>

lemma powr_le_of_power_le:
  fixes x c p :: real
  assumes "1 \<le> x" and "0 < c" and "0 < n" and "p \<le> real m / real n" and "x ^ m \<le> c ^ n"
  shows "x powr p \<le> c"
proof -
  have "x powr p \<le> x powr (real m / real n)"
    using assms(1,4) by (intro powr_mono) simp_all
  also have "\<dots> = (x powr real m) powr (1 / real n)"
    by (simp add: powr_powr)
  also have "\<dots> = (x ^ m) powr (1 / real n)"
    using assms(1) by (simp add: powr_realpow)
  also have "\<dots> \<le> (c ^ n) powr (1 / real n)"
    using assms(1,5) by (intro powr_mono2) simp_all
  also have "\<dots> = (c powr real n) powr (1 / real n)"
    using assms(2) by (simp add: powr_realpow)
  also have "\<dots> = c"
    using assms(2,3) by (simp add: powr_powr)
  finally show ?thesis .
qed

lemma powr_ge_of_power_ge:
  fixes x c p :: real
  assumes "1 \<le> x" and "0 < c" and "0 < n" and "real m / real n \<le> p" and "c ^ n \<le> x ^ m"
  shows "c \<le> x powr p"
proof -
  have "c = (c powr real n) powr (1 / real n)"
    using assms(2,3) by (simp add: powr_powr)
  also have "\<dots> = (c ^ n) powr (1 / real n)"
    using assms(2) by (simp add: powr_realpow)
  also have "\<dots> \<le> (x ^ m) powr (1 / real n)"
    using assms(2,5) by (intro powr_mono2) simp_all
  also have "\<dots> = (x powr real m) powr (1 / real n)"
    using assms(1) by (simp add: powr_realpow)
  also have "\<dots> = x powr (real m / real n)"
    by (simp add: powr_powr)
  also have "\<dots> \<le> x powr p"
    using assms(1,4) by (intro powr_mono) simp_all
  finally show ?thesis .
qed

lemma pow_3300_bounds:
  "359375 \<le> (3300::real) powr (3320211 / 2097152) \<and> (3300::real) powr (3320211 / 2097152) \<le> 372375"
proof
  show "359375 \<le> (3300::real) powr (3320211 / 2097152)"
    by (rule powr_ge_of_power_ge [where m = 30 and n = 19]) simp_all
  show "(3300::real) powr (3320211 / 2097152) \<le> 372375"
    by (rule powr_le_of_power_le [where m = 19 and n = 12]) simp_all
qed

lemma pow_9900_bounds:
  "2036562 \<le> (9900::real) powr (3320211 / 2097152) \<and> (9900::real) powr (3320211 / 2097152) \<le> 2120423"
proof
  show "2036562 \<le> (9900::real) powr (3320211 / 2097152)"
    by (rule powr_ge_of_power_ge [where m = 30 and n = 19]) simp_all
  show "(9900::real) powr (3320211 / 2097152) \<le> 2120423"
    by (rule powr_le_of_power_le [where m = 19 and n = 12]) simp_all
qed


subsection \<open>The lux values of the raw codes 2048 and 1024\<close>

lemma round_binary64_numeral [simp]:
  "(numeral k :: int) < 9007199254740992 \<Longrightarrow> round_binary64 (numeral k) = Finite (numeral k)"
  using round_binary64_int [of "numeral k"] by simp

lemma divider_resistance_2048:
  "\<not> photocell_on_ground st \<Longrightarrow> divider_resistance st 2048 = Finite 3300"
  by (simp add: divider_resistance_def divider_ratio_def guarded_raw_def full_scale_eq OTHER_RESISTOR_def)

lemma divider_resistance_1024:
  "\<not> photocell_on_ground st \<Longrightarrow> divider_resistance st 1024 = Finite 9900"
  by (simp add: divider_resistance_def divider_ratio_def guarded_raw_def full_scale_eq OTHER_RESISTOR_def)

lemma power_law_between:
  assumes m: "mult_value st = Finite m" and p: "pow_value st = Finite p" and r: "0 < r"
    and lo: "real_of_int lo \<le> real r powr p" and hi: "real r powr p \<le> real_of_int hi"
    and lo_pos: "0 < lo" and hi_small: "hi < 16777216"
    and c1: "c1 \<le> m / real_of_int hi" and c2: "m / real_of_int lo \<le> c2" and m_pos: "0 < m"
    and r1: "round_binary32 c1 = Finite c1" and r2: "round_binary32 c2 = Finite c2"
  shows "\<exists>a. resistor_to_lux st r = Finite a \<and> c1 \<le> a \<and> a \<le> c2 \<and> round_binary32 a = Finite a"
proof -
  from lo hi have lohi: "lo \<le> hi" by linarith
  with lo_pos hi_small have small: "\<bar>lo\<bar> < 16777216" "\<bar>hi\<bar> < 16777216"
    "\<bar>lo\<bar> < 9007199254740992" "\<bar>hi\<bar> < 9007199254740992" by simp_all
  from round_binary64_between [OF lo hi round_binary64_int [OF small(3)] round_binary64_int [OF small(4)]]
  obtain y where y: "round_binary64 (real r powr p) = Finite y" "real_of_int lo \<le> y" "y \<le> real_of_int hi"
    by blast
  from round_binary32_between [OF y(2,3) round_binary32_int [OF small(1)] round_binary32_int [OF small(2)]]
  obtain z where z: "round_binary32 y = Finite z" "real_of_int lo \<le> z" "z \<le> real_of_int hi"
    by blast
  from z(2) lo_pos have z_pos: "0 < z" by linarith
  have "m / real_of_int hi \<le> m / z"
    using z(3) z_pos m_pos by (intro divide_left_mono) simp_all
  with c1 have low: "c1 \<le> m / z" by linarith
  have "m / z \<le> m / real_of_int lo"
    using z(2) z_pos m_pos lo_pos by (intro divide_left_mono) simp_all
  with c2 have high: "m / z \<le> c2" by linarith
  from round_binary32_between [OF low high r1 r2]
  obtain a where a: "round_binary32 (m / z) = Finite a" "c1 \<le> a" "a \<le> c2"
    by blast
  have "resistor_to_lux st r = Finite a"
    using m p r y z a z_pos by (simp add: resistor_to_lux_def)
  with a round_binary32_idem [OF a(1)] show ?thesis by blast
qed

lemma lux_2048_bounds:
  assumes "\<not> photocell_on_ground st" and "mult_value st = Finite 32017200"
    and "pow_value st = Finite (3320211 / 2097152)"
  shows "\<exists>a. LDR_getCurrentLux st 2048 = Some (Finite a) \<and> 85 \<le> a \<and> a \<le> 90 \<and>
           round_binary32 a = Finite a"
proof -
  have res: "photocell_resistor st 2048 = Some 3300"
    using assms(1) by (simp add: photocell_resistor_def divider_resistance_2048)
  have "\<exists>a. resistor_to_lux st 3300 = Finite a \<and> 85 \<le> a \<and> a \<le> 90 \<and> round_binary32 a = Finite a"
    using pow_3300_bounds
    by (intro power_law_between [OF assms(2,3), where lo = 359375 and hi = 372375]) simp_all
  with res show ?thesis
    by (simp add: LDR_getCurrentLux_def LDR_rawAnalogValueToLux_def)
qed

lemma lux_1024_bounds:
  assumes "\<not> photocell_on_ground st" and "mult_value st = Finite 32017200"
    and "pow_value st = Finite (3320211 / 2097152)"
  shows "\<exists>b. LDR_getCurrentLux st 1024 = Some (Finite b) \<and> 15 \<le> b \<and> b \<le> 16 \<and>
           round_binary32 b = Finite b"
proof -
  have res: "photocell_resistor st 1024 = Some 9900"
    using assms(1) by (simp add: photocell_resistor_def divider_resistance_1024)
  have "\<exists>a. resistor_to_lux st 9900 = Finite a \<and> 15 \<le> a \<and> a \<le> 16 \<and> round_binary32 a = Finite a"
    using pow_9900_bounds
    by (intro power_law_between [OF assms(2,3), where lo = 2036562 and hi = 2120423]) simp_all
  with res show ?thesis
    by (simp add: LDR_getCurrentLux_def LDR_rawAnalogValueToLux_def)
qed


subsection \<open>Initializing again\<close>

lemma fresh_default:
  "LDR_init GL5528 power_on =
     \<lparr> mult_value = Finite 32017200, pow_value = Finite (3320211 / 2097152),
       photocell_on_ground = False, smoothing_sum = Finite 0, smoothing_history_size = 10,
       smoothing_history_next = 0,
       smoothing_history_values =
         [Finite (- 1), Finite (- 1), Finite (- 1), Finite (- 1), Finite (- 1),
          Finite (- 1), Finite (- 1), Finite (- 1), Finite (- 1), Finite (- 1)] @ replicate 90 (Finite 0) \<rparr>"
proof -
  have ten: "unat (10 :: 32 word) \<le> HISTORY_ARRAY_LENGTH"
    by (simp add: HISTORY_ARRAY_LENGTH_def)
  have rep: "replicate 10 (Finite (- 1)) =
     [Finite (- 1), Finite (- 1), Finite (- 1), Finite (- 1), Finite (- 1),
          Finite (- 1), Finite (- 1), Finite (- 1), Finite (- 1), Finite (- 1)]"
    by (simp add: eval_nat_numeral)
  have "LDR_init GL5528 power_on = LDR_init_sized 10 GL5528 power_on"
    by (simp add: LDR_init_def SMOOTHING_HISTORY_SIZE_def)
  also note LDR_init_sized_power_on [OF ten]
  finally show ?thesis
    by (simp only: preset_pow_GL5528 preset_mult.simps) (simp add: HISTORY_ARRAY_LENGTH_def rep)
qed

lemma LDR_init_keeps_sum_and_next:
  "smoothing_sum (LDR_init typeDevice st) = smoothing_sum st \<and>
   smoothing_history_next (LDR_init typeDevice st) = smoothing_history_next st"
  by (simp add: LDR_init_def LDR_init_sized_def Let_def)

lemma LDR_init_sized_again:
  assumes "length (smoothing_history_values st) = HISTORY_ARRAY_LENGTH"
    and "unat hsize \<le> HISTORY_ARRAY_LENGTH"
  shows "LDR_init_sized hsize typeDevice st =
     st \<lparr> photocell_on_ground := False, smoothing_history_size := hsize,
          mult_value := Finite (preset_mult typeDevice),
          pow_value := float_of_double (round_binary64 (preset_pow typeDevice)),
          smoothing_history_values :=
            replicate (unat hsize) (Finite (- 1)) @ drop (unat hsize) (smoothing_history_values st) \<rparr>"
proof -
  have "\<not> (word_of_nat HISTORY_ARRAY_LENGTH :: 32 word) < hsize"
    using assms(2) by (simp add: HISTORY_ARRAY_LENGTH_def word_less_nat_alt)
  then show ?thesis
    using assms by (simp add: LDR_init_sized_def Let_def fill_history_eq preset_mult_exact)
qed

lemma LDR_getCurrentLux_calibration:
  assumes "photocell_on_ground st = photocell_on_ground st'"
    and "mult_value st = mult_value st'" and "pow_value st = pow_value st'"
  shows "LDR_getCurrentLux st raw = LDR_getCurrentLux st' raw"
  using assms
  by (simp add: LDR_getCurrentLux_def LDR_rawAnalogValueToLux_def photocell_resistor_def
      divider_resistance_def resistor_to_lux_def cong: option.case_cong)

lemma first_call_default:
  assumes "round_binary32 a = Finite a"
  shows "smoothing_update (LDR_init GL5528 power_on) (Finite a) =
     Some (Finite a,
       \<lparr> mult_value = Finite 32017200, pow_value = Finite (3320211 / 2097152),
         photocell_on_ground = False, smoothing_sum = Finite a, smoothing_history_size = 10,
         smoothing_history_next = 1,
         smoothing_history_values =
           [Finite a, Finite (- 1), Finite (- 1), Finite (- 1), Finite (- 1),
            Finite (- 1), Finite (- 1), Finite (- 1), Finite (- 1), Finite (- 1)] @ replicate 90 (Finite 0) \<rparr>)"
  using assms
  by (simp add: fresh_default smoothing_update_def float_of_u32_small Let_def)

lemma reinit_after_first_call:
  "LDR_init GL5528
       \<lparr> mult_value = Finite 32017200, pow_value = Finite (3320211 / 2097152),
         photocell_on_ground = False, smoothing_sum = Finite a, smoothing_history_size = 10,
         smoothing_history_next = 1,
         smoothing_history_values =
           [Finite a, Finite (- 1), Finite (- 1), Finite (- 1), Finite (- 1),
            Finite (- 1), Finite (- 1), Finite (- 1), Finite (- 1), Finite (- 1)] @ replicate 90 (Finite 0) \<rparr> =
      \<lparr> mult_value = Finite 32017200, pow_value = Finite (3320211 / 2097152),
        photocell_on_ground = False, smoothing_sum = Finite a, smoothing_history_size = 10,
        smoothing_history_next = 1,
        smoothing_history_values =
         [Finite (- 1), Finite (- 1), Finite (- 1), Finite (- 1), Finite (- 1),
          Finite (- 1), Finite (- 1), Finite (- 1), Finite (- 1), Finite (- 1)] @ replicate 90 (Finite 0) \<rparr>"
proof -
  let ?st1 = "\<lparr> mult_value = Finite 32017200, pow_value = Finite (3320211 / 2097152),
         photocell_on_ground = False, smoothing_sum = Finite a, smoothing_history_size = 10,
         smoothing_history_next = 1,
         smoothing_history_values =
           [Finite a, Finite (- 1), Finite (- 1), Finite (- 1), Finite (- 1),
            Finite (- 1), Finite (- 1), Finite (- 1), Finite (- 1), Finite (- 1)] @ replicate 90 (Finite 0) \<rparr>"
  have len: "length (smoothing_history_values ?st1) = HISTORY_ARRAY_LENGTH"
    by (simp add: HISTORY_ARRAY_LENGTH_def)
  have ten: "unat (10 :: 32 word) \<le> HISTORY_ARRAY_LENGTH"
    by (simp add: HISTORY_ARRAY_LENGTH_def)
  have rep: "replicate 10 (Finite (- 1)) =
     [Finite (- 1), Finite (- 1), Finite (- 1), Finite (- 1), Finite (- 1),
          Finite (- 1), Finite (- 1), Finite (- 1), Finite (- 1), Finite (- 1)]"
    by (simp add: eval_nat_numeral)
  have "LDR_init GL5528 ?st1 = LDR_init_sized 10 GL5528 ?st1"
    by (simp add: LDR_init_def SMOOTHING_HISTORY_SIZE_def)
  also note LDR_init_sized_again [OF len ten]
  finally show ?thesis
    by (simp only: preset_pow_GL5528 preset_mult.simps) (simp add: rep)
qed

lemma read_after_reinit:
  assumes "round_binary32 (a + b) = Finite s" and "round_binary32 (s / 2) = Finite c"
  shows "smoothing_update
      \<lparr> mult_value = Finite 32017200, pow_value = Finite (3320211 / 2097152),
        photocell_on_ground = False, smoothing_sum = Finite a, smoothing_history_size = 10,
        smoothing_history_next = 1,
        smoothing_history_values =
         [Finite (- 1), Finite (- 1), Finite (- 1), Finite (- 1), Finite (- 1),
          Finite (- 1), Finite (- 1), Finite (- 1), Finite (- 1), Finite (- 1)] @ replicate 90 (Finite 0) \<rparr>
      (Finite b) =
   Some (Finite c,
      \<lparr> mult_value = Finite 32017200, pow_value = Finite (3320211 / 2097152),
        photocell_on_ground = False, smoothing_sum = Finite s, smoothing_history_size = 10,
        smoothing_history_next = 2,
        smoothing_history_values =
         [Finite (- 1), Finite b, Finite (- 1), Finite (- 1), Finite (- 1),
          Finite (- 1), Finite (- 1), Finite (- 1), Finite (- 1), Finite (- 1)] @ replicate 90 (Finite 0) \<rparr>)"
  using assms
  by (simp add: smoothing_update_def float_of_u32_small Let_def)


text \<open>
  Claim C1 fails on the code. \<^verbatim>\<open>LDR_init\<close> writes the marker into the history slots but assigns
  neither the running sum nor the next-write index. After \<^verbatim>\<open>LDR_init(GL5528)\<close>, one call of
  \<^verbatim>\<open>LDR_getSmoothedLux(2048)\<close> (lux value \<open>a\<close>, between 85 and 90) and a second
  \<^verbatim>\<open>LDR_init(GL5528)\<close>, the running sum is still \<open>a\<close> and the index is still 1; the next call
  \<^verbatim>\<open>LDR_getSmoothedLux(1024)\<close> (lux value \<open>b\<close>, between 15 and 16) returns
  \<open>c = (a + b) / 2\<close> in float arithmetic, between 50 and 53, where a first call after the
  first initialization returns \<open>b\<close> itself.
\<close>

theorem reinit_keeps_sum_and_index:
  "\<exists>a b c st1.
     LDR_getCurrentLux (LDR_init GL5528 power_on) 2048 = Some (Finite a) \<and> 85 \<le> a \<and> a \<le> 90 \<and>
     LDR_getCurrentLux (LDR_init GL5528 power_on) 1024 = Some (Finite b) \<and> 15 \<le> b \<and> b \<le> 16 \<and>
     LDR_getSmoothedLux (LDR_init GL5528 power_on) 2048 = Some (Finite a, st1) \<and>
     smoothing_sum (LDR_init GL5528 st1) = Finite a \<and>
     smoothing_sum (LDR_init GL5528 st1) \<noteq> Finite 0 \<and>
     smoothing_history_next (LDR_init GL5528 st1) = 1 \<and>
     map_option fst (LDR_getSmoothedLux (LDR_init GL5528 st1) 1024) = Some (Finite c) \<and>
     Finite c = fdiv (fadd (Finite a) (Finite b)) (Finite 2) \<and> 50 \<le> c \<and> c \<le> 53 \<and>
     map_option fst (LDR_getSmoothedLux (LDR_init GL5528 power_on) 1024) = Some (Finite b) \<and>
     c \<noteq> b"
proof -
  let ?st0 = "LDR_init GL5528 power_on"
  have cal: "\<not> photocell_on_ground ?st0" "mult_value ?st0 = Finite 32017200"
    "pow_value ?st0 = Finite (3320211 / 2097152)"
    by (simp_all add: fresh_default)
  from lux_2048_bounds [OF cal] obtain a where
    a: "LDR_getCurrentLux ?st0 2048 = Some (Finite a)" "85 \<le> a" "a \<le> 90" "round_binary32 a = Finite a"
    by blast
  from lux_1024_bounds [OF cal] obtain b where
    b: "LDR_getCurrentLux ?st0 1024 = Some (Finite b)" "15 \<le> b" "b \<le> 16" "round_binary32 b = Finite b"
    by blast
  define st1 where "st1 =
       \<lparr> mult_value = Finite 32017200, pow_value = Finite (3320211 / 2097152),
         photocell_on_ground = False, smoothing_sum = Finite a, smoothing_history_size = 10,
         smoothing_history_next = 1,
         smoothing_history_values =
           [Finite a, Finite (- 1), Finite (- 1), Finite (- 1), Finite (- 1),
            Finite (- 1), Finite (- 1), Finite (- 1), Finite (- 1), Finite (- 1)] @ replicate 90 (Finite 0) \<rparr>"
  define st2 where "st2 =
      \<lparr> mult_value = Finite 32017200, pow_value = Finite (3320211 / 2097152),
        photocell_on_ground = False, smoothing_sum = Finite a, smoothing_history_size = 10,
        smoothing_history_next = 1,
        smoothing_history_values =
         [Finite (- 1), Finite (- 1), Finite (- 1), Finite (- 1), Finite (- 1),
          Finite (- 1), Finite (- 1), Finite (- 1), Finite (- 1), Finite (- 1)] @ replicate 90 (Finite 0) \<rparr>"
  have call1: "LDR_getSmoothedLux ?st0 2048 = Some (Finite a, st1)"
    unfolding st1_def using first_call_default [OF a(4)] by (simp add: LDR_getSmoothedLux_def a(1))
  have reinit: "LDR_init GL5528 st1 = st2"
    unfolding st1_def st2_def by (rule reinit_after_first_call)
  have sum2: "smoothing_sum (LDR_init GL5528 st1) = Finite a"
    by (simp add: reinit st2_def)
  from a(2) have "a \<noteq> 0" by simp
  with sum2 have sum_nz: "smoothing_sum (LDR_init GL5528 st1) \<noteq> Finite 0" by simp
  have next2: "smoothing_history_next (LDR_init GL5528 st1) = 1"
    by (simp add: reinit st2_def)
  have lux2: "LDR_getCurrentLux st2 1024 = LDR_getCurrentLux ?st0 1024"
    by (rule LDR_getCurrentLux_calibration) (simp_all add: st2_def fresh_default)
  from a(2,3) b(2,3) have "100 \<le> a + b" "a + b \<le> 106" by simp_all
  from round_binary32_between [OF this] obtain s where
    s: "round_binary32 (a + b) = Finite s" "100 \<le> s" "s \<le> 106"
    by auto
  from s(2,3) have "50 \<le> s / 2" "s / 2 \<le> 53" by simp_all
  from round_binary32_between [OF this] obtain c where
    c: "round_binary32 (s / 2) = Finite c" "50 \<le> c" "c \<le> 53"
    by auto
  have "LDR_getSmoothedLux st2 1024 = smoothing_update st2 (Finite b)"
    by (simp add: LDR_getSmoothedLux_def lux2 b(1))
  also have "map_option fst (smoothing_update st2 (Finite b)) = Some (Finite c)"
    unfolding st2_def by (simp only: read_after_reinit [OF s(1) c(1)] option.map fst_conv)
  finally have read2: "map_option fst (LDR_getSmoothedLux (LDR_init GL5528 st1) 1024) = Some (Finite c)"
    unfolding reinit .
  have avg: "Finite c = fdiv (fadd (Finite a) (Finite b)) (Finite 2)"
    by (simp add: s(1) c(1))
  have read1: "map_option fst (LDR_getSmoothedLux ?st0 1024) = Some (Finite b)"
    using first_call_default [OF b(4)] by (simp add: LDR_getSmoothedLux_def b(1))
  from c(2) b(3) have diff: "c \<noteq> b" by simp
  from a(1-3) b(1-3) call1 sum2 sum_nz next2 read2 avg c(2,3) read1 diff
  show ?thesis by blast
qed

subsection \<open>The running sum and the next-write index\<close>



lemma LDR_init_sized_size:
  "smoothing_history_size (LDR_init_sized hsize typeDevice st) =
     (if word_of_nat HISTORY_ARRAY_LENGTH < hsize then word_of_nat HISTORY_ARRAY_LENGTH else hsize)"
  by (simp add: LDR_init_sized_def Let_def)



subsection \<open>The samples of a preset are never below the threshold of an unfilled slot\<close>



lemma round_binary64_1 [simp]: "round_binary64 1 = Finite 1"
  using round_binary64_int [of 1] by simp








subsection \<open>The running sum while the buffer fills\<close>













text \<open>
  After a slot has been overwritten, rounding alone separates the two sums, with finite
  samples: with capacity 2 and the instantaneous values \<open>2^24\<close>, 1, 1 the second addition is
  absorbed (\<open>2^24 + 1\<close> rounds to \<open>2^24\<close>), so that after the third step the running sum is
  1 while the history holds 1 and 1.
\<close>

lemma steady_state_rounding_example:
  "\<exists>vs st. smoothing_updates (LDR_init_sized 2 GL5528 power_on)
       [Finite 16777216, Finite 1, Finite 1] = Some (vs, st) \<and>
     smoothing_sum st = Finite 1 \<and> history_sum st = Finite 2"
proof -
  have two: "unat (2 :: 32 word) \<le> HISTORY_ARRAY_LENGTH"
    by (simp add: HISTORY_ARRAY_LENGTH_def)
  have fresh: "LDR_init_sized 2 GL5528 power_on =
     \<lparr> mult_value = Finite 32017200, pow_value = Finite (3320211 / 2097152),
       photocell_on_ground = False, smoothing_sum = Finite 0, smoothing_history_size = 2,
       smoothing_history_next = 0,
       smoothing_history_values = [Finite (- 1), Finite (- 1)] @ replicate 98 (Finite 0) \<rparr>"
  proof -
    have u: "unat (2 :: 32 word) = 2" by simp
    have r: "replicate 2 (Finite (- 1)) = [Finite (- 1), Finite (- 1)]"
      by (simp add: numeral_2_eq_2)
    show ?thesis
      by (simp only: LDR_init_sized_power_on [OF two] preset_pow_GL5528 preset_mult.simps u r
          HISTORY_ARRAY_LENGTH_def) simp
  qed
  have big: "round_binary32 16777216 = Finite 16777216"
    unfolding round_binary32_def
    by (rule round_float_representable [where n = 1 and k = 24]) simp_all
  have absorbed: "round_binary32 16777217 = Finite 16777216"
    by (subst round_binary32_eval [where e = 24]) (simp_all add: round_half_even_def)
  have half: "round_binary32 8388608 = Finite 8388608"
    by simp
  show ?thesis
    by (simp add: fresh smoothing_update_def float_of_u32_small Let_def big absorbed history_sum_def)
qed

subsection \<open>The power law is weakly, not strictly, decreasing\<close>

lemma round_binary32_not_NaN [simp]: "round_binary32 x \<noteq> NaN"
  by (simp add: round_binary32_def round_float_def Let_def)

lemma round_binary64_not_NaN [simp]: "round_binary64 x \<noteq> NaN"
  by (simp add: round_binary64_def round_float_def Let_def)

lemma round_binary32_mono: "x \<le> y \<Longrightarrow> fle (round_binary32 x) (round_binary32 y)"
  unfolding round_binary32_def by (rule round_float_mono) simp_all

lemma round_binary64_mono: "x \<le> y \<Longrightarrow> fle (round_binary64 x) (round_binary64 y)"
  unfolding round_binary64_def by (rule round_float_mono) simp_all

lemma fle_PInf [simp]: "fle x PInf = (x \<noteq> NaN)"
  by (cases x) simp_all

lemma fle_NInf [simp]: "fle NInf y = (y \<noteq> NaN)"
  by (cases y) simp_all

lemma float_of_double_mono:
  assumes "fle x y"
  shows "fle (float_of_double x) (float_of_double y)"
  using assms by (cases x; cases y) (simp_all add: round_binary32_mono)

lemma power_law_divisor:
  assumes "0 < r" and "0 \<le> p"
  shows "fle (Finite 1) (float_of_double (cpow r (Finite p)))"
proof -
  from assms have "1 \<le> real r powr p"
    by (intro ge_one_powr_ge_zero) simp_all
  from round_binary64_mono [OF this] have "fle (Finite 1) (round_binary64 (real r powr p))"
    by simp
  from float_of_double_mono [OF this] assms(1) show ?thesis by simp
qed

lemma power_law_divisor_mono:
  assumes "0 < r1" and "r1 \<le> r2" and "0 \<le> p"
  shows "fle (float_of_double (cpow r1 (Finite p))) (float_of_double (cpow r2 (Finite p)))"
proof -
  from assms have "real r1 powr p \<le> real r2 powr p"
    by (intro powr_mono2) simp_all
  from float_of_double_mono [OF round_binary64_mono [OF this]] assms(1,2) show ?thesis by simp
qed

lemma fdiv_antimono:
  assumes "0 < m" and "fle (Finite 1) d1" and "fle d1 d2"
  shows "fle (fdiv (Finite m) d2) (fdiv (Finite m) d1)"
proof (cases d1)
  case (Finite a)
  with assms(2) have a: "1 \<le> a" by simp
  show ?thesis
  proof (cases d2)
    case (Finite b)
    with assms(3) \<open>d1 = Finite a\<close> have ab: "a \<le> b" by simp
    with a assms(1) have "m / b \<le> m / a"
      by (intro divide_left_mono) simp_all
    from round_binary32_mono [OF this] a ab Finite \<open>d1 = Finite a\<close> show ?thesis by simp
  next
    case PInf
    from a assms(1) have "0 \<le> m / a" by simp
    from round_binary32_mono [OF this] a PInf \<open>d1 = Finite a\<close> show ?thesis
      by (simp add: fdiv_def)
  next
    case NInf
    with assms(3) \<open>d1 = Finite a\<close> show ?thesis by simp
  next
    case NaN
    with assms(3) \<open>d1 = Finite a\<close> show ?thesis by simp
  qed
next
  case PInf
  with assms(3) have "d2 = PInf" by (cases d2) simp_all
  with PInf show ?thesis by (simp add: fdiv_def)
next
  case NInf
  with assms(2) show ?thesis by simp
next
  case NaN
  with assms(2) show ?thesis by simp
qed

lemma power_law_weak:
  assumes "mult_value st = Finite m" and "0 < m" and "pow_value st = Finite p" and "0 < p"
    and "0 < r1" and "r1 < r2"
  shows "fle (resistor_to_lux st r2) (resistor_to_lux st r1)"
proof -
  have one: "fle (Finite 1) (float_of_double (cpow r1 (Finite p)))"
    using assms(4,5) by (intro power_law_divisor) simp_all
  have mono: "fle (float_of_double (cpow r1 (Finite p))) (float_of_double (cpow r2 (Finite p)))"
    using assms(4,5,6) by (intro power_law_divisor_mono) simp_all
  from fdiv_antimono [OF assms(2) one mono] assms(1,3) show ?thesis
    by (simp add: resistor_to_lux_def)
qed

lemma tiny_power_bounds:
  fixes x :: real
  assumes "1 \<le> x" and "x \<le> 9900"
  shows "1 \<le> x powr (1 / 2 ^ 40) \<and> x powr (1 / 2 ^ 40) \<le> 1 + 1 / 2 ^ 25"
proof
  show "1 \<le> x powr (1 / 2 ^ 40)"
    using assms(1) by (intro ge_one_powr_ge_zero) simp_all
next
  define t where "t = (1 / 2 ^ 40) * ln x"
  from assms(1) have pos: "0 < x" by simp
  have ln0: "0 \<le> ln x" using assms(1) by simp
  have "ln x \<le> x - 1" using pos by (rule ln_le_minus_one)
  with assms(2) have ln1: "ln x \<le> 9899" by linarith
  have t0: "0 \<le> t" unfolding t_def using ln0 by simp
  have "t \<le> (1 / 2 ^ 40) * 9899"
    unfolding t_def using ln1 by (intro mult_left_mono) simp_all
  then have t1: "t \<le> 9899 / 2 ^ 40" by simp
  then have t_le_1: "t \<le> 1" by simp
  have "t\<^sup>2 \<le> t * 1"
    unfolding power2_eq_square using t0 t_le_1 by (intro mult_left_mono) simp_all
  then have sq: "t\<^sup>2 \<le> t" by simp
  have "x powr (1 / 2 ^ 40) = exp t"
    using pos by (simp add: powr_def t_def)
  also have "\<dots> \<le> 1 + t + t\<^sup>2"
    using t0 t_le_1 by (rule exp_bound)
  also have "\<dots> \<le> 1 + 2 * t" using sq by simp
  also have "\<dots> \<le> 1 + 2 * (9899 / 2 ^ 40)" using t1 by simp
  also have "\<dots> \<le> 1 + 1 / 2 ^ 25" by simp
  finally show "x powr (1 / 2 ^ 40) \<le> 1 + 1 / 2 ^ 25" .
qed

lemma round_binary32_near_1:
  fixes y :: real
  assumes "1 \<le> y" and "y \<le> 1 + 1 / 2 ^ 25"
  shows "round_binary32 y = Finite 1"
proof -
  have top: "round_binary32 (1 + 1 / 2 ^ 25) = Finite 1"
    by (subst round_binary32_eval [where e = 0]) (simp_all add: round_half_even_def)
  from round_binary32_mono [OF assms(1)] have lo: "fle (Finite 1) (round_binary32 y)" by simp
  from round_binary32_mono [OF assms(2)] top have hi: "fle (round_binary32 y) (Finite 1)" by simp
  from lo hi show ?thesis by (cases "round_binary32 y") simp_all
qed

lemma round_binary64_near_1:
  fixes y :: real
  assumes "1 \<le> y" and "y \<le> 1 + 1 / 2 ^ 25"
  shows "\<exists>z. round_binary64 y = Finite z \<and> 1 \<le> z \<and> z \<le> 1 + 1 / 2 ^ 25"
proof -
  have "round_binary64 (1 + 1 / 2 ^ 25) = Finite (1 + 1 / 2 ^ 25)"
    unfolding round_binary64_def
    by (rule round_float_representable [where n = 33554433 and k = "- 25"])
      (simp_all add: power_int_minus field_simps)
  from round_binary64_between [OF assms _ this] show ?thesis by auto
qed

lemma tiny_exponent_lux:
  assumes "mult_value st = Finite 1" and "pow_value st = Finite (1 / 2 ^ 40)"
    and "0 < r" and "r \<le> 9900"
  shows "resistor_to_lux st r = Finite 1"
proof -
  from assms(3,4) have "1 \<le> real r" "real r \<le> 9900" by simp_all
  from tiny_power_bounds [OF this] round_binary64_near_1 obtain z where
    z: "round_binary64 (real r powr (1 / 2 ^ 40)) = Finite z" "1 \<le> z" "z \<le> 1 + 1 / 2 ^ 25"
    by blast
  from round_binary32_near_1 [OF z(2,3)] z(1) assms show ?thesis
    by (simp add: resistor_to_lux_def)
qed

lemma round_binary32_absorbs:
  "round_binary32 33554432 = Finite 33554432" "round_binary32 33554433 = Finite 33554432"
proof -
  show "round_binary32 33554432 = Finite 33554432"
    unfolding round_binary32_def
    by (rule round_float_representable [where n = 1 and k = 25]) simp_all
  show "round_binary32 33554433 = Finite 33554432"
    by (subst round_binary32_eval [where e = 25]) (simp_all add: round_half_even_def)
qed

lemma round_binary32_2pm25: "round_binary32 (1 / 33554432) = Finite (1 / 33554432)"
  unfolding round_binary32_def
  by (rule round_float_representable [where n = 1 and k = "- 25"])
    (simp_all add: power_int_minus field_simps)

text \<open>
  Claim C6 as stated fails: the float result takes equal values at distinct resistances.
  With the multiplier 1 and the exponent 1 the resistances \<open>2^25\<close> and \<open>2^25 + 1\<close> convert to
  the same float, so both lux values are \<open>2^-25\<close>. With the multiplier 1 and the exponent
  \<open>2^-40\<close> the powers of 3300 and 9900 (the resistances of the raw codes 2048 and 1024) both
  round to 1, so both lux values are 1.
\<close>

theorem power_law_strictly_decreasing_counterexample:
  "resistor_to_lux (LDR_updatePhotocellParameters (Finite 1) (Finite 1) (LDR_init GL5528 power_on))
      33554432 = Finite (1 / 33554432) \<and>
   resistor_to_lux (LDR_updatePhotocellParameters (Finite 1) (Finite 1) (LDR_init GL5528 power_on))
      33554433 = Finite (1 / 33554432) \<and>
   \<not> fless (resistor_to_lux (LDR_updatePhotocellParameters (Finite 1) (Finite 1) (LDR_init GL5528 power_on))
            33554433)
          (resistor_to_lux (LDR_updatePhotocellParameters (Finite 1) (Finite 1) (LDR_init GL5528 power_on))
            33554432) \<and>
   LDR_getCurrentLux
     (LDR_updatePhotocellParameters (Finite 1) (Finite (1 / 2 ^ 40)) (LDR_init GL5528 power_on)) 2048 =
     Some (Finite 1) \<and>
   LDR_getCurrentLux
     (LDR_updatePhotocellParameters (Finite 1) (Finite (1 / 2 ^ 40)) (LDR_init GL5528 power_on)) 1024 =
     Some (Finite 1) \<and>
   resistor_to_lux
     (LDR_updatePhotocellParameters (Finite 1) (Finite (1 / 2 ^ 40)) (LDR_init GL5528 power_on)) 3300 =
     Finite 1 \<and>
   resistor_to_lux
     (LDR_updatePhotocellParameters (Finite 1) (Finite (1 / 2 ^ 40)) (LDR_init GL5528 power_on)) 9900 =
     Finite 1"
proof -
  let ?st1 = "LDR_updatePhotocellParameters (Finite 1) (Finite 1) (LDR_init GL5528 power_on)"
  let ?st2 = "LDR_updatePhotocellParameters (Finite 1) (Finite (1 / 2 ^ 40)) (LDR_init GL5528 power_on)"
  have a: "resistor_to_lux ?st1 33554432 = Finite (1 / 33554432)"
    by (simp add: resistor_to_lux_def LDR_updatePhotocellParameters_def round_binary32_absorbs
        round_binary32_2pm25)
  have b: "resistor_to_lux ?st1 33554433 = Finite (1 / 33554432)"
    by (simp add: resistor_to_lux_def LDR_updatePhotocellParameters_def round_binary32_absorbs
        round_binary32_2pm25)
  have cal: "mult_value ?st2 = Finite 1" "pow_value ?st2 = Finite (1 / 2 ^ 40)"
    "\<not> photocell_on_ground ?st2"
    by (simp_all add: LDR_updatePhotocellParameters_def fresh_default)
  have c: "resistor_to_lux ?st2 3300 = Finite 1"
    by (rule tiny_exponent_lux [OF cal(1,2)]) simp_all
  have d: "resistor_to_lux ?st2 9900 = Finite 1"
    by (rule tiny_exponent_lux [OF cal(1,2)]) simp_all
  have e: "LDR_getCurrentLux ?st2 2048 = Some (Finite 1)"
    using cal(3) c
    by (simp only: LDR_getCurrentLux_def LDR_rawAnalogValueToLux_def photocell_resistor_def
        divider_resistance_2048 [OF cal(3)]) simp
  have f: "LDR_getCurrentLux ?st2 1024 = Some (Finite 1)"
    using cal(3) d
    by (simp only: LDR_getCurrentLux_def LDR_rawAnalogValueToLux_def photocell_resistor_def
        divider_resistance_1024 [OF cal(3)]) simp
  from a b c d e f show ?thesis by (simp only: fless.simps) simp
qed

subsection \<open>Unit conversion\<close>

lemma rel_error_bounds:
  fixes x y e :: real
  assumes "\<bar>y - x\<bar> \<le> e * \<bar>x\<bar>" and "0 \<le> e" and "e \<le> 1 / 2"
  shows "\<bar>x\<bar> / 2 \<le> \<bar>y\<bar>" and "\<bar>y\<bar> \<le> 2 * \<bar>x\<bar>"
proof -
  have "e * \<bar>x\<bar> \<le> (1 / 2) * \<bar>x\<bar>"
    using assms(3) by (intro mult_right_mono) simp_all
  with assms(1) have d: "\<bar>y - x\<bar> \<le> \<bar>x\<bar> / 2" by simp
  from d show "\<bar>x\<bar> / 2 \<le> \<bar>y\<bar>" by linarith
  from d show "\<bar>y\<bar> \<le> 2 * \<bar>x\<bar>" by linarith
qed

lemma rel_error_compose:
  fixes x y z a b :: real
  assumes "\<bar>y - x\<bar> \<le> a * \<bar>x\<bar>" and "\<bar>z - y\<bar> \<le> b * \<bar>y\<bar>" and "0 \<le> a" and "0 \<le> b"
  shows "\<bar>z - x\<bar> \<le> (a + b + a * b) * \<bar>x\<bar>"
proof -
  from assms(1) have "\<bar>y\<bar> \<le> \<bar>x\<bar> + a * \<bar>x\<bar>" by linarith
  then have "b * \<bar>y\<bar> \<le> b * (\<bar>x\<bar> + a * \<bar>x\<bar>)"
    using assms(4) by (intro mult_left_mono) simp_all
  with assms(2) have "\<bar>z - y\<bar> \<le> b * \<bar>x\<bar> + a * b * \<bar>x\<bar>"
    by (simp add: algebra_simps)
  with assms(1) have "\<bar>z - x\<bar> \<le> a * \<bar>x\<bar> + b * \<bar>x\<bar> + a * b * \<bar>x\<bar>" by linarith
  then show ?thesis by (simp add: algebra_simps)
qed

lemma round_binary32_error:
  assumes "1 / 2 ^ 126 \<le> \<bar>x\<bar>" and "\<bar>x\<bar> \<le> 2 ^ 127"
  shows "\<exists>y. round_binary32 x = Finite y \<and> \<bar>y - x\<bar> \<le> (1 / 2 ^ 24) * \<bar>x\<bar>"
proof -
  have lo: "(2::real) powi (- 126) \<le> \<bar>x\<bar>"
    using assms(1) by (simp add: power_int_minus field_simps)
  have hi: "\<bar>x\<bar> \<le> 2 powi 127" using assms(2) by simp
  from round_float_error [OF lo hi, of 24] obtain y where
    "round_float 24 (- 126) 127 x = Finite y" "\<bar>y - x\<bar> \<le> 2 powi (- 24) * \<bar>x\<bar>"
    by auto
  then show ?thesis
    by (simp add: round_binary32_def power_int_minus field_simps)
qed

lemma round_binary64_error:
  assumes "1 / 2 ^ 126 \<le> \<bar>x\<bar>" and "\<bar>x\<bar> \<le> 2 ^ 127"
  shows "\<exists>y. round_binary64 x = Finite y \<and> \<bar>y - x\<bar> \<le> (1 / 2 ^ 53) * \<bar>x\<bar>"
proof -
  have "(2::real) powi (- 1022) \<le> 2 powi (- 126)"
    by (intro power_int_increasing) simp_all
  also have "\<dots> \<le> \<bar>x\<bar>"
    using assms(1) by (simp add: power_int_minus field_simps)
  finally have lo: "(2::real) powi (- 1022) \<le> \<bar>x\<bar>" .
  have "\<bar>x\<bar> \<le> 2 powi 127" using assms(2) by simp
  also have "(2::real) powi 127 \<le> 2 powi 1023"
    by (intro power_int_increasing) simp_all
  finally have hi: "\<bar>x\<bar> \<le> 2 powi 1023" .
  from round_float_error [OF lo hi, of 53] obtain y where
    "round_float 53 (- 1022) 1023 x = Finite y" "\<bar>y - x\<bar> \<le> 2 powi (- 53) * \<bar>x\<bar>"
    by auto
  then show ?thesis
    by (simp add: round_binary64_def power_int_minus field_simps)
qed

text \<open>
  A \<^verbatim>\<open>double\<close> operation whose exact result is \<open>v\<close>, followed by the conversion to
  \<^verbatim>\<open>float\<close>: two roundings.
\<close>

lemma double_then_float_error:
  assumes "1 / 2 ^ 125 \<le> \<bar>v\<bar>" and "\<bar>v\<bar> \<le> 2 ^ 125"
  shows "\<exists>y. float_of_double (round_binary64 v) = Finite y \<and>
           \<bar>y - v\<bar> \<le> (1 / 2 ^ 24 + 1 / 2 ^ 52) * \<bar>v\<bar> \<and> \<bar>v\<bar> / 2 \<le> \<bar>y\<bar> \<and> \<bar>y\<bar> \<le> 2 * \<bar>v\<bar>"
proof -
  have "(1::real) / 2 ^ 126 \<le> 1 / 2 ^ 125" by simp
  with assms(1) have lo: "1 / 2 ^ 126 \<le> \<bar>v\<bar>" by linarith
  have "(2::real) ^ 125 \<le> 2 ^ 127" by simp
  with assms(2) have hi: "\<bar>v\<bar> \<le> 2 ^ 127" by linarith
  from round_binary64_error [OF lo hi] obtain u where
    u: "round_binary64 v = Finite u" "\<bar>u - v\<bar> \<le> (1 / 2 ^ 53) * \<bar>v\<bar>"
    by blast
  from rel_error_bounds [OF u(2)] have ub: "\<bar>v\<bar> / 2 \<le> \<bar>u\<bar>" "\<bar>u\<bar> \<le> 2 * \<bar>v\<bar>"
    by simp_all
  from ub(1) assms(1) have ulo: "1 / 2 ^ 126 \<le> \<bar>u\<bar>" by simp
  from ub(2) assms(2) have uhi: "\<bar>u\<bar> \<le> 2 ^ 127" by simp
  from round_binary32_error [OF ulo uhi] obtain y where
    y: "round_binary32 u = Finite y" "\<bar>y - u\<bar> \<le> (1 / 2 ^ 24) * \<bar>u\<bar>"
    by blast
  from rel_error_compose [OF u(2) y(2)]
  have "\<bar>y - v\<bar> \<le> (1 / 2 ^ 53 + 1 / 2 ^ 24 + 1 / 2 ^ 53 * (1 / 2 ^ 24)) * \<bar>v\<bar>" by simp
  also have "\<dots> \<le> (1 / 2 ^ 24 + 1 / 2 ^ 52) * \<bar>v\<bar>"
    by (intro mult_right_mono) simp_all
  finally have err: "\<bar>y - v\<bar> \<le> (1 / 2 ^ 24 + 1 / 2 ^ 52) * \<bar>v\<bar>" .
  from rel_error_bounds [OF err] have "\<bar>v\<bar> / 2 \<le> \<bar>y\<bar>" "\<bar>y\<bar> \<le> 2 * \<bar>v\<bar>"
    by simp_all
  with u(1) y(1) err show ?thesis by simp
qed

lemma conversion_factor:
  "\<exists>c. round_binary64 10.764 = Finite c \<and> 10 \<le> c \<and> c \<le> 11"
proof -
  have "(10::real) \<le> 10.764" "(10.764::real) \<le> 11" by simp_all
  from round_binary64_between [OF this] show ?thesis by auto
qed

lemma two_stage_tolerance:
  fixes x w z :: real
  assumes "\<bar>w - x\<bar> \<le> (1 / 2 ^ 24 + 1 / 2 ^ 52) * \<bar>x\<bar>"
    and "\<bar>z - w\<bar> \<le> (1 / 2 ^ 24 + 1 / 2 ^ 52) * \<bar>w\<bar>"
  shows "\<bar>z - x\<bar> \<le> (1 / 2 ^ 22) * \<bar>x\<bar>"
proof -
  let ?e = "(1::real) / 2 ^ 24 + 1 / 2 ^ 52"
  from rel_error_compose [OF assms] have "\<bar>z - x\<bar> \<le> (?e + ?e + ?e * ?e) * \<bar>x\<bar>" by simp
  also have "\<dots> \<le> (1 / 2 ^ 22) * \<bar>x\<bar>"
    by (intro mult_right_mono) simp_all
  finally show ?thesis .
qed

lemma lux_of_footcandles_round_trip:
  assumes "1 / 2 ^ 120 \<le> \<bar>x\<bar>" and "\<bar>x\<bar> \<le> 2 ^ 120"
  shows "within_tolerance (1 / 2 ^ 22) x (LDR_luxToFootCandles (LDR_footCandlesToLux (Finite x)))"
proof -
  from conversion_factor obtain c where
    c: "round_binary64 10.764 = Finite c" "10 \<le> c" "c \<le> 11" by blast
  then have c_pos: "0 < c" by simp
  have abs_v: "\<bar>c * x\<bar> = c * \<bar>x\<bar>" using c_pos by (simp add: abs_mult)
  have "1 / 2 ^ 125 \<le> 10 * (1 / 2 ^ 120 :: real)" by simp
  also have "\<dots> \<le> c * \<bar>x\<bar>"
    using c(2) assms(1) by (intro mult_mono) simp_all
  finally have vlo: "1 / 2 ^ 125 \<le> \<bar>c * x\<bar>" by (simp only: abs_v)
  have "c * \<bar>x\<bar> \<le> 11 * 2 ^ 120"
    using c(3) assms(2) c_pos by (intro mult_mono) simp_all
  also have "\<dots> \<le> (2::real) ^ 125" by simp
  finally have vhi: "\<bar>c * x\<bar> \<le> 2 ^ 125" by (simp only: abs_v)
  have vhi': "\<bar>c * x\<bar> \<le> 11 * 2 ^ 120"
    using \<open>c * \<bar>x\<bar> \<le> 11 * 2 ^ 120\<close> by (simp only: abs_v)
  have vlo': "10 * (1 / 2 ^ 120) \<le> \<bar>c * x\<bar>"
    using \<open>10 * (1 / 2 ^ 120 :: real) \<le> c * \<bar>x\<bar>\<close> by (simp only: abs_v)
  from double_then_float_error [OF vlo vhi] obtain y where
    y: "float_of_double (round_binary64 (c * x)) = Finite y"
      "\<bar>y - c * x\<bar> \<le> (1 / 2 ^ 24 + 1 / 2 ^ 52) * \<bar>c * x\<bar>"
      "\<bar>c * x\<bar> / 2 \<le> \<bar>y\<bar>" "\<bar>y\<bar> \<le> 2 * \<bar>c * x\<bar>"
    by blast
  have abs_w: "\<bar>y / c\<bar> = \<bar>y\<bar> / c" using c_pos by simp
  have "\<bar>y\<bar> / c \<le> \<bar>y\<bar> / 10"
    using c(2) by (intro divide_left_mono) simp_all
  also have "\<dots> \<le> (2 * (11 * 2 ^ 120)) / 10" using y(4) vhi' by simp
  also have "\<dots> \<le> (2::real) ^ 125" by simp
  finally have whi: "\<bar>y / c\<bar> \<le> 2 ^ 125" by (simp only: abs_w)
  have "(1::real) / 2 ^ 125 \<le> (10 * (1 / 2 ^ 120) / 2) / 11" by simp
  also have "\<dots> \<le> \<bar>y\<bar> / 11" using y(3) vlo' by (intro divide_right_mono) simp_all
  also have "\<dots> \<le> \<bar>y\<bar> / c"
    using c(3) c_pos by (intro divide_left_mono) simp_all
  finally have wlo: "1 / 2 ^ 125 \<le> \<bar>y / c\<bar>" by (simp only: abs_w)
  from double_then_float_error [OF wlo whi] obtain z where
    z: "float_of_double (round_binary64 (y / c)) = Finite z"
      "\<bar>z - y / c\<bar> \<le> (1 / 2 ^ 24 + 1 / 2 ^ 52) * \<bar>y / c\<bar>"
    by blast
  have "y / c - x = (y - c * x) / c" using c_pos by (simp add: field_simps)
  then have "\<bar>y / c - x\<bar> = \<bar>y - c * x\<bar> / c" using c_pos by simp
  also have "\<dots> \<le> ((1 / 2 ^ 24 + 1 / 2 ^ 52) * \<bar>c * x\<bar>) / c"
    using y(2) c_pos by (intro divide_right_mono) simp_all
  also have "\<dots> = (1 / 2 ^ 24 + 1 / 2 ^ 52) * \<bar>x\<bar>"
    using c_pos by (simp add: abs_mult)
  finally have w: "\<bar>y / c - x\<bar> \<le> (1 / 2 ^ 24 + 1 / 2 ^ 52) * \<bar>x\<bar>" .
  from two_stage_tolerance [OF w z(2)] have "\<bar>z - x\<bar> \<le> (1 / 2 ^ 22) * \<bar>x\<bar>" .
  moreover have "LDR_luxToFootCandles (LDR_footCandlesToLux (Finite x)) = Finite z"
    using c(1) c_pos y(1) z(1)
    by (simp add: LDR_luxToFootCandles_def LDR_footCandlesToLux_def dmul_def ddiv_def)
  ultimately show ?thesis by simp
qed

lemma footcandles_of_lux_round_trip:
  assumes "1 / 2 ^ 120 \<le> \<bar>x\<bar>" and "\<bar>x\<bar> \<le> 2 ^ 120"
  shows "within_tolerance (1 / 2 ^ 22) x (LDR_footCandlesToLux (LDR_luxToFootCandles (Finite x)))"
proof -
  from conversion_factor obtain c where
    c: "round_binary64 10.764 = Finite c" "10 \<le> c" "c \<le> 11" by blast
  then have c_pos: "0 < c" by simp
  have abs_v: "\<bar>x / c\<bar> = \<bar>x\<bar> / c" using c_pos by simp
  have "(1::real) / 2 ^ 125 \<le> (1 / 2 ^ 120) / 11" by simp
  also have "\<dots> \<le> \<bar>x\<bar> / 11" using assms(1) by (intro divide_right_mono) simp_all
  also have "\<dots> \<le> \<bar>x\<bar> / c" using c(3) c_pos by (intro divide_left_mono) simp_all
  finally have vlo: "1 / 2 ^ 125 \<le> \<bar>x / c\<bar>" by (simp only: abs_v)
  from \<open>(1 / 2 ^ 120) / 11 \<le> \<bar>x\<bar> / 11\<close> \<open>\<bar>x\<bar> / 11 \<le> \<bar>x\<bar> / c\<close>
  have "(1 / 2 ^ 120) / 11 \<le> \<bar>x\<bar> / c" by linarith
  then have vlo': "(1 / 2 ^ 120) / 11 \<le> \<bar>x / c\<bar>" by (simp only: abs_v)
  have "\<bar>x\<bar> / c \<le> \<bar>x\<bar> / 10" using c(2) by (intro divide_left_mono) simp_all
  also have "\<dots> \<le> 2 ^ 120 / 10" using assms(2) by (intro divide_right_mono) simp_all
  finally have vhi': "\<bar>x / c\<bar> \<le> 2 ^ 120 / 10" by (simp only: abs_v)
  have "(2::real) ^ 120 / 10 \<le> 2 ^ 125" by simp
  with vhi' have vhi: "\<bar>x / c\<bar> \<le> 2 ^ 125" by linarith
  from double_then_float_error [OF vlo vhi] obtain y where
    y: "float_of_double (round_binary64 (x / c)) = Finite y"
      "\<bar>y - x / c\<bar> \<le> (1 / 2 ^ 24 + 1 / 2 ^ 52) * \<bar>x / c\<bar>"
      "\<bar>x / c\<bar> / 2 \<le> \<bar>y\<bar>" "\<bar>y\<bar> \<le> 2 * \<bar>x / c\<bar>"
    by blast
  have abs_w: "\<bar>c * y\<bar> = c * \<bar>y\<bar>" using c_pos by (simp add: abs_mult)
  from vlo' have "((1 / 2 ^ 120) / 11) / 2 \<le> \<bar>x / c\<bar> / 2"
    by (intro divide_right_mono) simp_all
  from this y(3) have ylo: "((1 / 2 ^ 120) / 11) / 2 \<le> \<bar>y\<bar>" by (rule order_trans)
  have "c * \<bar>y\<bar> \<le> 11 * (2 * (2 ^ 120 / 10))"
    using c(3) c_pos y(4) vhi' by (intro mult_mono) simp_all
  also have "\<dots> \<le> (2::real) ^ 125" by simp
  finally have whi: "\<bar>c * y\<bar> \<le> 2 ^ 125" by (simp only: abs_w)
  have "(1::real) / 2 ^ 125 \<le> 10 * (((1 / 2 ^ 120) / 11) / 2)" by simp
  also have "\<dots> \<le> c * \<bar>y\<bar>"
    using c(2) ylo by (intro mult_mono) simp_all
  finally have wlo: "1 / 2 ^ 125 \<le> \<bar>c * y\<bar>" by (simp only: abs_w)
  from double_then_float_error [OF wlo whi] obtain z where
    z: "float_of_double (round_binary64 (c * y)) = Finite z"
      "\<bar>z - c * y\<bar> \<le> (1 / 2 ^ 24 + 1 / 2 ^ 52) * \<bar>c * y\<bar>"
    by blast
  have "c * y - x = c * (y - x / c)" using c_pos by (simp add: field_simps)
  then have "\<bar>c * y - x\<bar> = c * \<bar>y - x / c\<bar>" using c_pos by (simp add: abs_mult)
  also have "\<dots> \<le> c * ((1 / 2 ^ 24 + 1 / 2 ^ 52) * \<bar>x / c\<bar>)"
    using y(2) c_pos by (intro mult_left_mono) simp_all
  also have "\<dots> = (1 / 2 ^ 24 + 1 / 2 ^ 52) * \<bar>x\<bar>"
    using c_pos by (simp add: abs_mult)
  finally have w: "\<bar>c * y - x\<bar> \<le> (1 / 2 ^ 24 + 1 / 2 ^ 52) * \<bar>x\<bar>" .
  from two_stage_tolerance [OF w z(2)] have "\<bar>z - x\<bar> \<le> (1 / 2 ^ 22) * \<bar>x\<bar>" .
  moreover have "LDR_footCandlesToLux (LDR_luxToFootCandles (Finite x)) = Finite z"
    using c(1) c_pos y(1) z(1)
    by (simp add: LDR_luxToFootCandles_def LDR_footCandlesToLux_def dmul_def ddiv_def)
  ultimately show ?thesis by simp
qed

text \<open>
  Claim C7, as amended. For every finite input \<open>x\<close> with \<open>2^-120 \<le> \<bar>x\<bar> \<le> 2^120\<close> both
  compositions of the two conversions return a finite value within the relative tolerance
  \<open>2^-22\<close> of \<open>x\<close> (four roundings: two to binary64 and two to binary32).
\<close>

theorem unit_conversion_round_trip:
  assumes "1 / 2 ^ 120 \<le> \<bar>x\<bar>" and "\<bar>x\<bar> \<le> 2 ^ 120"
  shows "within_tolerance (1 / 2 ^ 22) x (LDR_luxToFootCandles (LDR_footCandlesToLux (Finite x))) \<and>
         within_tolerance (1 / 2 ^ 22) x (LDR_footCandlesToLux (LDR_luxToFootCandles (Finite x)))"
  using lux_of_footcandles_round_trip [OF assms] footcandles_of_lux_round_trip [OF assms]
  by simp


lemma round_binary64_power2:
  assumes "n \<le> 1023"
  shows "round_binary64 (2 ^ n) = Finite (2 ^ n)"
proof -
  have "(2::real) ^ n < 2 ^ 1024"
    using assms by (intro power_strict_increasing) simp_all
  then have "\<bar>(2::real) ^ n\<bar> < 2 powi (1023 + 1)" by simp
  then show ?thesis
    unfolding round_binary64_def
    by (intro round_float_representable [where n = 1 and k = "int n"]) simp_all
qed

lemma round_binary64_inverse_power2:
  assumes "n \<le> 1022"
  shows "round_binary64 (1 / 2 ^ n) = Finite (1 / 2 ^ n)"
proof -
  have "(1::real) / 2 ^ n \<le> 1" by simp
  also have "(1::real) < 2 powi (1023 + 1)" by simp
  finally have "\<bar>(1::real) / 2 ^ n\<bar> < 2 powi (1023 + 1)" by simp
  then show ?thesis
    unfolding round_binary64_def
    by (intro round_float_representable [where n = 1 and k = "- int n"])
      (use assms in \<open>simp_all add: power_int_minus field_simps\<close>)
qed

lemma largest_float: "round_binary32 (16777215 * 2 ^ 104) = Finite (16777215 * 2 ^ 104)"
  unfolding round_binary32_def
  by (rule round_float_representable [where n = 16777215 and k = 104]) simp_all

lemma smallest_float: "round_binary32 (1 / 2 ^ 149) = Finite (1 / 2 ^ 149)"
  unfolding round_binary32_def
  by (rule round_float_representable [where n = 1 and k = "- 149"])
    (simp_all add: power_int_minus field_simps)

lemma footcandles_to_lux_overflow:
  "LDR_footCandlesToLux (Finite (16777215 * 2 ^ 104)) = PInf"
proof -
  from conversion_factor obtain c where
    c: "round_binary64 10.764 = Finite c" "10 \<le> c" "c \<le> 11" by blast
  let ?x = "(16777215::real) * 2 ^ 104"
  have "(2::real) ^ 128 \<le> 10 * ?x" by simp
  also have "\<dots> \<le> c * ?x" using c(2) by (intro mult_right_mono) simp_all
  finally have lo: "2 ^ 128 \<le> c * ?x" .
  have "c * ?x \<le> 11 * ?x" using c(3) by (intro mult_right_mono) simp_all
  also have "\<dots> \<le> 2 ^ 132" by simp
  finally have hi: "c * ?x \<le> 2 ^ 132" .
  from round_binary64_between [OF lo hi round_binary64_power2 round_binary64_power2]
  obtain u where u: "round_binary64 (c * ?x) = Finite u" "2 ^ 128 \<le> u"
    by auto
  from u(2) have "(2::real) powi (127 + 1) \<le> u" by simp
  then have "round_binary32 u = PInf"
    unfolding round_binary32_def by (rule round_float_overflow) simp_all
  with c(1) u(1) show ?thesis
    by (simp add: LDR_footCandlesToLux_def dmul_def)
qed

lemma lux_to_footcandles_PInf: "LDR_luxToFootCandles PInf = PInf"
proof -
  from conversion_factor obtain c where
    c: "round_binary64 10.764 = Finite c" "10 \<le> c" "c \<le> 11" by blast
  then show ?thesis
    by (simp add: LDR_luxToFootCandles_def ddiv_def)
qed

lemma lux_to_footcandles_underflow:
  "LDR_luxToFootCandles (Finite (1 / 2 ^ 149)) = Finite 0"
proof -
  from conversion_factor obtain c where
    c: "round_binary64 10.764 = Finite c" "10 \<le> c" "c \<le> 11" by blast
  then have c_pos: "0 < c" by simp
  let ?v = "(1 / 2 ^ 149) / c"
  have lo: "0 \<le> ?v" using c_pos by simp
  have "?v \<le> (1 / 2 ^ 149) / 8"
    using c(2) by (intro divide_left_mono) simp_all
  also have "\<dots> = 1 / 2 ^ 152" by simp
  finally have hi: "?v \<le> 1 / 2 ^ 152" .
  have zero64: "round_binary64 0 = Finite 0" by (simp add: round_binary64_def)
  from round_binary64_between [OF lo hi zero64 round_binary64_inverse_power2]
  obtain u where u: "round_binary64 ?v = Finite u" "0 \<le> u" "u \<le> 1 / 2 ^ 152"
    by auto
  have "round_unbounded 24 (- 126) (1 / 2 ^ 152) =
      of_int (round_half_even ((1 / 2 ^ 152) / 2 powi (- 126 - 24 + 1))) * 2 powi (- 126 - 24 + 1)"
    by (rule round_unbounded_eval_subnormal) (simp_all add: power_int_minus field_simps)
  also have "\<dots> = 0"
    by (simp add: power_int_minus round_half_even_def)
  finally have "round_binary32 (1 / 2 ^ 152) = Finite 0"
    by (simp add: round_binary32_def round_float_def)
  with round_binary32_mono [OF u(3)] have up: "fle (round_binary32 u) (Finite 0)" by simp
  from round_binary32_mono [OF u(2)] have down: "fle (Finite 0) (round_binary32 u)" by simp
  from up down have "round_binary32 u = Finite 0"
    by (cases "round_binary32 u") simp_all
  with c(1) c_pos u(1) show ?thesis
    by (simp add: LDR_luxToFootCandles_def ddiv_def)
qed

lemma footcandles_to_lux_0: "LDR_footCandlesToLux (Finite 0) = Finite 0"
proof -
  from conversion_factor obtain c where
    c: "round_binary64 10.764 = Finite c" "10 \<le> c" "c \<le> 11" by blast
  then show ?thesis
    by (simp add: LDR_footCandlesToLux_def dmul_def round_binary64_def)
qed

text \<open>
  Claim C7 as stated fails at both ends of the range of \<^verbatim>\<open>float\<close>. For the largest finite
  float, \<open>(2^24 - 1) * 2^104\<close>, the product with 10.764 does not fit a \<^verbatim>\<open>float\<close>:
  \<^verbatim>\<open>LDR_footCandlesToLux\<close> returns +infinity, and so does the composition. For the smallest
  positive float, \<open>2^-149\<close>, the quotient by 10.764 rounds to 0: \<^verbatim>\<open>LDR_luxToFootCandles\<close>
  returns 0, and so does the composition.
\<close>

theorem unit_conversion_round_trip_counterexample:
  "round_binary32 (16777215 * 2 ^ 104) = Finite (16777215 * 2 ^ 104) \<and>
   LDR_footCandlesToLux (Finite (16777215 * 2 ^ 104)) = PInf \<and>
   LDR_luxToFootCandles (LDR_footCandlesToLux (Finite (16777215 * 2 ^ 104))) = PInf \<and>
   \<not> within_tolerance (1 / 2 ^ 22) (16777215 * 2 ^ 104)
       (LDR_luxToFootCandles (LDR_footCandlesToLux (Finite (16777215 * 2 ^ 104)))) \<and>
   round_binary32 (1 / 2 ^ 149) = Finite (1 / 2 ^ 149) \<and>
   LDR_luxToFootCandles (Finite (1 / 2 ^ 149)) = Finite 0 \<and>
   LDR_footCandlesToLux (LDR_luxToFootCandles (Finite (1 / 2 ^ 149))) = Finite 0 \<and>
   \<not> within_tolerance (1 / 2 ^ 22) (1 / 2 ^ 149)
       (LDR_footCandlesToLux (LDR_luxToFootCandles (Finite (1 / 2 ^ 149))))"
  by (simp only: largest_float smallest_float footcandles_to_lux_overflow lux_to_footcandles_PInf
      lux_to_footcandles_underflow footcandles_to_lux_0 within_tolerance.simps) simp

theorem unit_conversion_round_trip_witness:
  "(1::real) / 2 ^ 120 \<le> \<bar>100\<bar> \<and> \<bar>100::real\<bar> \<le> 2 ^ 120 \<and>
   within_tolerance (1 / 2 ^ 22) 100 (LDR_luxToFootCandles (LDR_footCandlesToLux (Finite 100))) \<and>
   within_tolerance (1 / 2 ^ 22) 100 (LDR_footCandlesToLux (LDR_luxToFootCandles (Finite 100)))"
proof -
  have range: "(1::real) / 2 ^ 120 \<le> \<bar>100\<bar>" "\<bar>100::real\<bar> \<le> 2 ^ 120"
    by simp_all
  from unit_conversion_round_trip [OF range] range show ?thesis by blast
qed

subsection \<open>The power law is strictly decreasing where the exact values are separated\<close>

lemma strict_gap:
  fixes x1 x2 l1 l2 :: real
  assumes "0 < x1"
    and "x2 * ((1 - (1 / 2 ^ 24 + 1 / 2 ^ 52)) * (1 + 1 / 2 ^ 21)) \<le> x1 * (1 + (1 / 2 ^ 24 + 1 / 2 ^ 52))"
    and "l2 \<le> (1 + 1 / 2 ^ 24) * x2" and "(1 - 1 / 2 ^ 24) * x1 \<le> l1"
  shows "l2 < l1"
  using assms by simp

lemma round_binary32_inverse_power2:
  assumes "n \<le> 149"
  shows "round_binary32 (1 / 2 ^ n) = Finite (1 / 2 ^ n)"
proof -
  have "(1::real) / 2 ^ n \<le> 1" by simp
  also have "(1::real) < 2 powi (127 + 1)" by simp
  finally have "\<bar>(1::real) / 2 ^ n\<bar> < 2 powi (127 + 1)" by simp
  then show ?thesis
    unfolding round_binary32_def
    by (intro round_float_representable [where n = 1 and k = "- int n"])
      (use assms in \<open>simp_all add: power_int_minus field_simps\<close>)
qed

lemma rel_error_sides:
  fixes x y e :: real
  assumes "\<bar>y - x\<bar> \<le> e * \<bar>x\<bar>" and "0 \<le> x"
  shows "(1 - e) * x \<le> y" and "y \<le> (1 + e) * x"
proof -
  from assms have "\<bar>y - x\<bar> \<le> e * x" by simp
  then have "x - e * x \<le> y" "y \<le> x + e * x" by linarith+
  then show "(1 - e) * x \<le> y" and "y \<le> (1 + e) * x"
    by (simp_all add: algebra_simps)
qed

lemma power_law_divisor_value:
  assumes "0 < r" and "0 \<le> p" and "real r powr p \<le> 2 ^ 125"
  shows "\<exists>d. float_of_double (cpow r (Finite p)) = Finite d \<and> 1 \<le> d \<and>
           (1 - (1 / 2 ^ 24 + 1 / 2 ^ 52)) * real r powr p \<le> d \<and>
           d \<le> (1 + (1 / 2 ^ 24 + 1 / 2 ^ 52)) * real r powr p"
proof -
  let ?a = "real r powr p"
  from assms(1,2) have one: "1 \<le> ?a" by (intro ge_one_powr_ge_zero) simp_all
  then have pos: "0 \<le> ?a" by simp
  have "(1::real) / 2 ^ 125 \<le> 1" by simp
  with one have lo: "1 / 2 ^ 125 \<le> \<bar>?a\<bar>" by linarith
  from assms(3) pos have hi: "\<bar>?a\<bar> \<le> 2 ^ 125" by simp
  from double_then_float_error [OF lo hi] obtain d where
    d: "float_of_double (round_binary64 ?a) = Finite d"
       "\<bar>d - ?a\<bar> \<le> (1 / 2 ^ 24 + 1 / 2 ^ 52) * \<bar>?a\<bar>"
    by blast
  from power_law_divisor [OF assms(1,2)] d(1) assms(1) have "1 \<le> d" by simp
  with d(1) rel_error_sides [OF d(2) pos] assms(1) show ?thesis by simp
qed

lemma power_law_strict_when_separated:
  assumes m: "mult_value st = Finite m" "0 < m" and p: "pow_value st = Finite p" "0 < p"
    and r: "0 < r1" "r1 < r2"
    and sep: "(1 + 1 / 2 ^ 21) * real r1 powr p \<le> real r2 powr p"
    and hi: "real r2 powr p \<le> 2 ^ 125"
    and mhi: "m \<le> 2 ^ 126" and mlo: "(1 / 2 ^ 124) * real r1 powr p \<le> m"
  shows "fless (resistor_to_lux st r2) (resistor_to_lux st r1)"
proof -
  define a where "a = real r1 powr p"
  define b where "b = real r2 powr p"
  define E :: real where "E = 1 + (1 / 2 ^ 24 + 1 / 2 ^ 52)"
  define F :: real where "F = 1 - (1 / 2 ^ 24 + 1 / 2 ^ 52)"
  define G :: real where "G = F * (1 + 1 / 2 ^ 21)"
  have E: "0 < E" "E \<le> 2" and F: "0 < F" and G: "0 < G"
    by (simp_all add: E_def F_def G_def)
  from r(1) p(2) have a1: "1 \<le> a" unfolding a_def by (intro ge_one_powr_ge_zero) simp_all
  then have a_pos: "0 < a" by simp
  have "a \<le> (1 + 1 / 2 ^ 21) * a" using a_pos by simp
  with sep have ab: "a \<le> b" unfolding a_def b_def by linarith
  with hi have a_hi: "a \<le> 2 ^ 125" unfolding a_def b_def by linarith
  from r have r2: "0 < r2" by simp
  from power_law_divisor_value [OF r(1) _ a_hi [unfolded a_def]] p(2) obtain d1 where
    d1: "float_of_double (cpow r1 (Finite p)) = Finite d1" "1 \<le> d1" "F * a \<le> d1" "d1 \<le> E * a"
    unfolding a_def E_def F_def by auto
  from power_law_divisor_value [OF r2 _ hi] p(2) obtain d2 where
    d2: "float_of_double (cpow r2 (Finite p)) = Finite d2" "1 \<le> d2" "F * b \<le> d2" "d2 \<le> E * b"
    unfolding b_def E_def F_def by auto
  define x1 where "x1 = m / d1"
  define x2 where "x2 = m / d2"
  have lux1: "resistor_to_lux st r1 = round_binary32 x1"
    using m(1) p(1) d1(1,2) by (simp add: resistor_to_lux_def x1_def)
  have lux2: "resistor_to_lux st r2 = round_binary32 x2"
    using m(1) p(1) d2(1,2) by (simp add: resistor_to_lux_def x2_def)
  have x1_pos: "0 < x1" and x2_pos: "0 < x2"
    using m(2) d1(2) d2(2) by (simp_all add: x1_def x2_def)
  have "x1 \<le> m / 1" unfolding x1_def using d1(2) m(2) by (intro divide_left_mono) simp_all
  with mhi have x1_hi: "x1 \<le> 2 ^ 127" by simp
  have "x2 \<le> m / 1" unfolding x2_def using d2(2) m(2) by (intro divide_left_mono) simp_all
  with mhi have x2_hi: "x2 \<le> 2 ^ 127" by simp
  have "E * a \<le> 2 * a" using E(2) a_pos by (intro mult_right_mono) simp_all
  with d1(4) have "d1 \<le> 2 * a" by linarith
  then have "(1 / 2 ^ 125) * d1 \<le> (1 / 2 ^ 125) * (2 * a)" by (intro mult_left_mono) simp_all
  also have "\<dots> = (1 / 2 ^ 124) * a" by simp
  also have "\<dots> \<le> m" using mlo by (simp add: a_def)
  finally have "1 / 2 ^ 125 \<le> m / d1"
    using d1(2) by (simp add: pos_le_divide_eq)
  then have x1_lo: "1 / 2 ^ 125 \<le> x1" by (simp add: x1_def)
  have "F * ((1 + 1 / 2 ^ 21) * a) \<le> F * b"
    using sep F by (intro mult_left_mono) (simp_all add: a_def b_def)
  with d2(3) have Ga: "G * a \<le> d2" by (simp add: G_def mult.assoc)
  have Ga_pos: "0 < G * a" using G a_pos by simp
  have "m / d2 \<le> m / (G * a)"
    using Ga Ga_pos m(2) by (intro divide_left_mono) simp_all
  then have "m / d2 * G \<le> m / (G * a) * G"
    using G by (intro mult_right_mono) simp_all
  also have "\<dots> = m / a" using G by simp
  finally have left: "x2 * G \<le> m / a" by (simp add: x2_def)
  have Ea_pos: "0 < E * a" using E a_pos by simp
  have "m / (E * a) \<le> m / d1"
    using d1(2,4) m(2) Ea_pos by (intro divide_left_mono) simp_all
  then have "m / (E * a) * E \<le> m / d1 * E"
    using E by (intro mult_right_mono) simp_all
  moreover have "m / (E * a) * E = m / a" using E by simp
  ultimately have right: "m / a \<le> x1 * E" by (simp add: x1_def)
  from left right have key: "x2 * G \<le> x1 * E" by linarith
  have x1_abs: "1 / 2 ^ 126 \<le> \<bar>x1\<bar>" "\<bar>x1\<bar> \<le> 2 ^ 127"
    using x1_lo x1_hi x1_pos by simp_all
  from round_binary32_error [OF x1_abs] obtain l1 where
    l1: "round_binary32 x1 = Finite l1" "\<bar>l1 - x1\<bar> \<le> (1 / 2 ^ 24) * \<bar>x1\<bar>"
    by blast
  from x1_pos have "0 \<le> x1" by simp
  from rel_error_sides(1) [OF l1(2) this] have l1_lo: "(1 - 1 / 2 ^ 24) * x1 \<le> l1" .
  show ?thesis
  proof (cases "1 / 2 ^ 126 \<le> x2")
    case True
    with x2_hi x2_pos have x2_abs: "1 / 2 ^ 126 \<le> \<bar>x2\<bar>" "\<bar>x2\<bar> \<le> 2 ^ 127" by simp_all
    from round_binary32_error [OF x2_abs] obtain l2 where
      l2: "round_binary32 x2 = Finite l2" "\<bar>l2 - x2\<bar> \<le> (1 / 2 ^ 24) * \<bar>x2\<bar>"
      by blast
    from x2_pos have "0 \<le> x2" by simp
    from rel_error_sides(2) [OF l2(2) this] have l2_hi: "l2 \<le> (1 + 1 / 2 ^ 24) * x2" .
    from strict_gap [OF x1_pos key [unfolded G_def F_def E_def] l2_hi l1_lo]
    have "l2 < l1" .
    with l1(1) l2(1) lux1 lux2 show ?thesis by simp
  next
    case False
    with x2_pos have "0 \<le> x2" "x2 \<le> 1 / 2 ^ 126" by simp_all
    from round_binary32_between [OF this round_binary32_0 round_binary32_inverse_power2]
    obtain l2 where l2: "round_binary32 x2 = Finite l2" "l2 \<le> 1 / 2 ^ 126"
      by auto
    have "(1 - 1 / 2 ^ 24) * (1 / 2 ^ 125) \<le> (1 - 1 / 2 ^ 24) * x1"
      using x1_lo by (intro mult_left_mono) simp_all
    moreover have "(1::real) / 2 ^ 126 < (1 - 1 / 2 ^ 24) * (1 / 2 ^ 125)" by simp
    ultimately have "l2 < l1" using l1_lo l2(2) by linarith
    with l1(1) l2(1) lux1 lux2 show ?thesis by simp
  qed
qed


text \<open>
  Claim C6, as amended. For a multiplier above 0 and an exponent above 0 the lux value of the
  power law, as the code computes it in float, is weakly decreasing in the resistance: for
  \<open>0 < r1 < r2\<close> the lux value at \<open>r2\<close> is at most the lux value at \<open>r1\<close>, and neither is
  a NaN. The decrease is strict where the exact powers are a relative \<open>2^-21\<close> apart and
  the values stay in the normal range of \<^verbatim>\<open>float\<close>: the power at \<open>r2\<close> at most \<open>2^125\<close>, the
  multiplier at most \<open>2^126\<close> and the exact lux value at \<open>r1\<close> at least \<open>2^-124\<close>.
\<close>

theorem power_law_weakly_decreasing:
  assumes "mult_value st = Finite m" and "0 < m" and "pow_value st = Finite p" and "0 < p"
    and "0 < r1" and "r1 < r2"
  shows "fle (resistor_to_lux st r2) (resistor_to_lux st r1) \<and>
         ((1 + 1 / 2 ^ 21) * real r1 powr p \<le> real r2 powr p \<and> real r2 powr p \<le> 2 ^ 125 \<and>
          m \<le> 2 ^ 126 \<and> (1 / 2 ^ 124) * real r1 powr p \<le> m \<longrightarrow>
            fless (resistor_to_lux st r2) (resistor_to_lux st r1))"
proof (intro conjI impI)
  show "fle (resistor_to_lux st r2) (resistor_to_lux st r1)"
    using assms by (rule power_law_weak)
next
  assume "(1 + 1 / 2 ^ 21) * real r1 powr p \<le> real r2 powr p \<and> real r2 powr p \<le> 2 ^ 125 \<and>
          m \<le> 2 ^ 126 \<and> (1 / 2 ^ 124) * real r1 powr p \<le> m"
  then have "(1 + 1 / 2 ^ 21) * real r1 powr p \<le> real r2 powr p" "real r2 powr p \<le> 2 ^ 125"
    "m \<le> 2 ^ 126" "(1 / 2 ^ 124) * real r1 powr p \<le> m"
    by simp_all
  with assms show "fless (resistor_to_lux st r2) (resistor_to_lux st r1)"
    by (intro power_law_strict_when_separated [where m = m and p = p])
qed

theorem power_law_weakly_decreasing_witness:
  "mult_value (LDR_init GL5528 power_on) = Finite 32017200 \<and> (0::real) < 32017200 \<and>
   pow_value (LDR_init GL5528 power_on) = Finite (3320211 / 2097152) \<and>
   (0::real) < 3320211 / 2097152 \<and> (0::nat) < 3300 \<and> (3300::nat) < 9900 \<and>
   (1 + 1 / 2 ^ 21) * (3300::real) powr (3320211 / 2097152) \<le> 9900 powr (3320211 / 2097152) \<and>
   (9900::real) powr (3320211 / 2097152) \<le> 2 ^ 125 \<and> (32017200::real) \<le> 2 ^ 126 \<and>
   (1 / 2 ^ 124) * (3300::real) powr (3320211 / 2097152) \<le> 32017200 \<and>
   (\<exists>a b. resistor_to_lux (LDR_init GL5528 power_on) 3300 = Finite a \<and>
          resistor_to_lux (LDR_init GL5528 power_on) 9900 = Finite b \<and>
          85 \<le> a \<and> a \<le> 90 \<and> 15 \<le> b \<and> b \<le> 16 \<and> b \<le> a \<and> b < a)"
proof -
  let ?st = "LDR_init GL5528 power_on"
  let ?p = "3320211 / 2097152 :: real"
  have m: "mult_value ?st = Finite 32017200" and p: "pow_value ?st = Finite ?p"
    by (simp_all add: fresh_default)
  have "\<exists>a. resistor_to_lux ?st 3300 = Finite a \<and> 85 \<le> a \<and> a \<le> 90 \<and> round_binary32 a = Finite a"
    using pow_3300_bounds
    by (intro power_law_between [OF m p, where lo = 359375 and hi = 372375]) simp_all
  then obtain a where a: "resistor_to_lux ?st 3300 = Finite a" "85 \<le> a" "a \<le> 90" by blast
  have "\<exists>a. resistor_to_lux ?st 9900 = Finite a \<and> 15 \<le> a \<and> a \<le> 16 \<and> round_binary32 a = Finite a"
    using pow_9900_bounds
    by (intro power_law_between [OF m p, where lo = 2036562 and hi = 2120423]) simp_all
  then obtain b where b: "resistor_to_lux ?st 9900 = Finite b" "15 \<le> b" "b \<le> 16" by blast
  have sep: "(1 + 1 / 2 ^ 21) * (3300::real) powr ?p \<le> 9900 powr ?p"
    using pow_3300_bounds pow_9900_bounds by simp
  have hi: "(9900::real) powr ?p \<le> 2 ^ 125"
    using pow_9900_bounds by simp
  have mlo: "(1 / 2 ^ 124) * (3300::real) powr ?p \<le> 32017200"
    using pow_3300_bounds by simp
  have pos: "(0::real) < 32017200" "(0::real) < ?p" "(0::nat) < 3300" "(3300::nat) < 9900"
    "(32017200::real) \<le> 2 ^ 126"
    by simp_all
  from power_law_weakly_decreasing [OF m pos(1) p pos(2,3,4)] sep hi mlo
  have "fle (resistor_to_lux ?st 9900) (resistor_to_lux ?st 3300)"
    and "fless (resistor_to_lux ?st 9900) (resistor_to_lux ?st 3300)"
    by simp_all
  with a b have "b \<le> a" "b < a" by simp_all
  with m p a b sep hi mlo pos show ?thesis by blast
qed

end
